theory Spec2Isabelle
  imports Main "HOL-Library.Word" "HOL-Library.Sublist"
begin

section \<open>JavaScript strings\<close>

text \<open>
  A JavaScript string is a sequence of UTF-16 code units. String literals of the source
  that are ASCII are written with \<open>lit\<close>; the Japanese literals are given by their
  code units.
\<close>

type_synonym jschar = "16 word"
type_synonym jsstring = "jschar list"

definition lit :: "string \<Rightarrow> jsstring" where
  "lit s = map of_char s"

text \<open>
  \<open>String.prototype.trim\<close> removes leading and trailing WhiteSpace and LineTerminator
  code points (ECMAScript: TAB, VT, FF, ZWNBSP, the Unicode space separators, LF, CR, LS,
  PS).
\<close>

definition isWhiteSpace :: "jschar \<Rightarrow> bool" where
  "isWhiteSpace c \<longleftrightarrow>
     c \<in> set [0x0009, 0x000A, 0x000B, 0x000C, 0x000D, 0x0020, 0x00A0, 0x1680,
              0x2000, 0x2001, 0x2002, 0x2003, 0x2004, 0x2005, 0x2006, 0x2007,
              0x2008, 0x2009, 0x200A, 0x2028, 0x2029, 0x202F, 0x205F, 0x3000, 0xFEFF]"

definition trim :: "jsstring \<Rightarrow> jsstring" where
  "trim s = rev (dropWhile isWhiteSpace (rev (dropWhile isWhiteSpace s)))"

text \<open>\<open>s.includes(m)\<close>: \<open>m\<close> occurs in \<open>s\<close> as a contiguous run.\<close>

fun includes_str :: "jsstring \<Rightarrow> jsstring \<Rightarrow> bool" where
  "includes_str [] m = (m = [])"
| "includes_str (c # cs) m = (prefix m (c # cs) \<or> includes_str cs m)"

text \<open>\<open>xs.join(sep)\<close>\<close>

fun join :: "jsstring \<Rightarrow> jsstring list \<Rightarrow> jsstring" where
  "join sep [] = []"
| "join sep [x] = x"
| "join sep (x # y # ys) = x @ sep @ join sep (y # ys)"

text \<open>\<open>s.replace(/\n/g, ' ')\<close>\<close>

definition replaceNewlines :: "jsstring \<Rightarrow> jsstring" where
  "replaceNewlines s = map (\<lambda>c. if c = 0x000A then 0x0020 else c) s"

text \<open>Decimal rendering of a non-negative integer, as template interpolation does.\<close>

fun toString :: "nat \<Rightarrow> jsstring" where
  "toString n = (if n < 10 then [of_nat (48 + n)]
                 else toString (n div 10) @ [of_nat (48 + n mod 10)])"

declare toString.simps [simp del]

section \<open>The document tree\<close>

text \<open>
  A node of the parsed document is a text node, an element, or a node of another kind
  (a comment), which \<open>processElement\<close> skips and \<open>textContent\<close> of an ancestor leaves out.
  The tag of an element is the value of \<open>element.tagName.toLowerCase()\<close>; for the
  elements the HTML parser makes this is the local name that a type selector matches.
  Attributes are kept in document order.
\<close>

datatype node =
    Text jsstring
  | Comment jsstring
  | Element jsstring "(jsstring \<times> jsstring) list" "node list"

text \<open>The document node: its child nodes (for a parsed page, the \<open>html\<close> element).\<close>

type_synonym document = "node list"

fun isElement :: "node \<Rightarrow> bool" where
  "isElement (Element t a cs) = True"
| "isElement _ = False"

fun isComment :: "node \<Rightarrow> bool" where
  "isComment (Comment s) = True"
| "isComment _ = False"

fun tagName :: "node \<Rightarrow> jsstring" where
  "tagName (Element t a cs) = t"
| "tagName _ = []"

fun childNodes :: "node \<Rightarrow> node list" where
  "childNodes (Element t a cs) = cs"
| "childNodes _ = []"

definition children :: "node \<Rightarrow> node list" where
  "children n = filter isElement (childNodes n)"

fun getAttribute :: "node \<Rightarrow> jsstring \<Rightarrow> jsstring option" where
  "getAttribute (Element t a cs) name = map_of a name"
| "getAttribute _ name = None"

text \<open>
  \<open>node.textContent\<close>: the data of a text or comment node; for an element the
  concatenation of the text of its descendants, comments left out.
\<close>

fun textContent :: "node \<Rightarrow> jsstring" where
  "textContent (Text s) = s"
| "textContent (Comment s) = s"
| "textContent (Element t a cs) =
     concat (map textContent (filter (\<lambda>c. \<not> isComment c) cs))"

text \<open>
  The elements below a list of sibling nodes, in document order (each element before its
  descendants): what \<open>querySelectorAll('*')\<close> ranges over.
\<close>

fun descendantElements :: "node list \<Rightarrow> node list" where
  "descendantElements [] = []"
| "descendantElements (Element t a cs # ns) =
     Element t a cs # descendantElements cs @ descendantElements ns"
| "descendantElements (n # ns) = descendantElements ns"

text \<open>
  \<open>element.querySelectorAll(sel)\<close> for a selector list of type selectors (\<open>'tr'\<close>,
  \<open>'td, th'\<close>): the descendants of the element whose tag is one of those named, in
  document order. \<open>querySelector\<close> is the first of them, or null.
\<close>

definition querySelectorAll :: "jsstring list \<Rightarrow> node \<Rightarrow> node list" where
  "querySelectorAll sel n =
     filter (\<lambda>e. tagName e \<in> set sel) (descendantElements (childNodes n))"

definition querySelector :: "jsstring list \<Rightarrow> node \<Rightarrow> node option" where
  "querySelector sel n =
     (case querySelectorAll sel n of [] \<Rightarrow> None | e # es \<Rightarrow> Some e)"

section \<open>Sanitizer\<close>

text \<open>
  \<open>doc.querySelectorAll(selector).forEach(el => el.remove())\<close> detaches every
  element that matches the selector from its parent; the document loses the subtrees
  rooted at the matching elements. \<open>removeUnwantedElements\<close> does so for each of the five
  selectors in turn.
\<close>

fun removeAll :: "jsstring \<Rightarrow> node list \<Rightarrow> node list" where
  "removeAll selector [] = []"
| "removeAll selector (Element t a cs # ns) =
     (if t = selector then removeAll selector ns
      else Element t a (removeAll selector cs) # removeAll selector ns)"
| "removeAll selector (n # ns) = n # removeAll selector ns"

definition unwantedSelectors :: "jsstring list" where
  "unwantedSelectors =
     [lit ''script'', lit ''style'', lit ''meta'', lit ''link'', lit ''noscript'']"

definition removeUnwantedElements :: "document \<Rightarrow> document" where
  "removeUnwantedElements doc = foldl (\<lambda>d selector. removeAll selector d) doc unwantedSelectors"


section \<open>Markdown Emitter (src/js/converter.js)\<close>

text \<open>
  Every node of a subtree is smaller than the element at its root; the recursion of the
  emitter goes down the tree along \<open>childNodes\<close>, \<open>children\<close> and \<open>querySelectorAll\<close>.
\<close>

lemma size_childNodes: "n \<in> set (childNodes e) \<Longrightarrow> size n < size e"
  by (cases e) (auto simp: less_Suc_eq_le size_list_estimation')

lemma size_children: "n \<in> set (children e) \<Longrightarrow> size n < size e"
  by (simp add: children_def size_childNodes)

lemma size_descendantElements:
  "n \<in> set (descendantElements ns) \<Longrightarrow> size n \<le> size_list size ns"
  by (induction ns rule: descendantElements.induct) (auto split: if_splits)

lemma size_querySelectorAll: "n \<in> set (querySelectorAll sel e) \<Longrightarrow> size n < size e"
  by (cases e) (auto simp: querySelectorAll_def less_Suc_eq_le dest: size_descendantElements)

lemma size_list_item:
  "i < length (filter P (children e)) \<Longrightarrow> size (filter P (children e) ! i) < size e"
  using nth_mem [of i "filter P (children e)"] by (auto dest: size_children)

lemma size_table_cell:
  assumes "i < length (querySelectorAll s1 table)"
    and "c \<in> set (querySelectorAll s2 (querySelectorAll s1 table ! i))"
  shows "size c < size table"
proof -
  have "querySelectorAll s1 table ! i \<in> set (querySelectorAll s1 table)"
    using assms(1) by simp
  then have "size (querySelectorAll s1 table ! i) < size table"
    by (rule size_querySelectorAll)
  moreover have "size c < size (querySelectorAll s1 table ! i)"
    using assms(2) by (rule size_querySelectorAll)
  ultimately show ?thesis by simp
qed

text \<open>
  \<open>processElement\<close> takes an element and renders its child nodes; the other three
  functions are the methods of the same names. A JavaScript string is truthy when it is
  not empty, an attribute value when the attribute is there and not empty.
\<close>

function processElement :: "node \<Rightarrow> jsstring"
  and convertElementToMarkdown :: "node \<Rightarrow> jsstring"
  and processListItems :: "node \<Rightarrow> jsstring option \<Rightarrow> bool \<Rightarrow> jsstring"
  and processTable :: "node \<Rightarrow> jsstring"
where
  "processElement element =
     concat (map (\<lambda>node.
        case node of
          Text s \<Rightarrow> (let text = trim s in if text \<noteq> [] then text @ lit '' '' else [])
        | Element t a cs \<Rightarrow> convertElementToMarkdown node
        | Comment s \<Rightarrow> [])
      (childNodes element))"
| "convertElementToMarkdown element =
     (let tag = tagName element; text = trim (textContent element) in
      if text = [] \<and> tag \<notin> set [lit ''br'', lit ''hr'', lit ''img''] then []
      else if tag = lit ''h1'' then lit ''\<newline># '' @ text @ lit ''\<newline>\<newline>''
      else if tag = lit ''h2'' then lit ''\<newline>## '' @ text @ lit ''\<newline>\<newline>''
      else if tag = lit ''h3'' then lit ''\<newline>### '' @ text @ lit ''\<newline>\<newline>''
      else if tag = lit ''h4'' then lit ''\<newline>#### '' @ text @ lit ''\<newline>\<newline>''
      else if tag = lit ''h5'' then lit ''\<newline>##### '' @ text @ lit ''\<newline>\<newline>''
      else if tag = lit ''h6'' then lit ''\<newline>###### '' @ text @ lit ''\<newline>\<newline>''
      else if tag = lit ''p'' then
        lit ''\<newline>'' @ processElement element @ lit ''\<newline>\<newline>''
      else if tag = lit ''br'' then lit ''\<newline>''
      else if tag = lit ''hr'' then lit ''\<newline>---\<newline>\<newline>''
      else if tag = lit ''strong'' \<or> tag = lit ''b'' then lit ''**'' @ text @ lit ''**''
      else if tag = lit ''em'' \<or> tag = lit ''i'' then lit ''*'' @ text @ lit ''*''
      else if tag = lit ''code'' then lit ''`'' @ text @ lit ''`''
      else if tag = lit ''var'' then lit ''$'' @ text @ lit ''$''
      else if tag = lit ''pre'' then
        (let codeElement = querySelector [lit ''code''] element;
             codeText = (case codeElement of Some c \<Rightarrow> textContent c | None \<Rightarrow> text)
         in lit ''\<newline>```\<newline>'' @ codeText @ lit ''\<newline>```\<newline>\<newline>'')
      else if tag = lit ''blockquote'' then
        lit ''\<newline>> '' @ processElement element @ lit ''\<newline>\<newline>''
      else if tag = lit ''a'' then
        (case getAttribute element (lit ''href'') of
           Some href \<Rightarrow>
             if href \<noteq> [] then lit ''['' @ text @ lit '']('' @ href @ lit '')'' else text
         | None \<Rightarrow> text)
      else if tag = lit ''img'' then
        (let src = getAttribute element (lit ''src'');
             alt = (case getAttribute element (lit ''alt'') of
                      Some v \<Rightarrow> if v \<noteq> [] then v else []
                    | None \<Rightarrow> [])
         in case src of
              Some v \<Rightarrow> if v \<noteq> [] then lit ''!['' @ alt @ lit '']('' @ v @ lit '')'' else []
            | None \<Rightarrow> [])
      else if tag = lit ''ul'' then
        lit ''\<newline>'' @ processListItems element (Some (lit ''- '')) False @ lit ''\<newline>''
      else if tag = lit ''ol'' then
        lit ''\<newline>'' @ processListItems element None True @ lit ''\<newline>''
      else if tag = lit ''li'' then processElement element
      else if tag = lit ''table'' then processTable element
      else if tag = lit ''div'' \<or> tag = lit ''span'' \<or> tag = lit ''section''
              \<or> tag = lit ''article'' then processElement element
      else processElement element)"
| "processListItems listElement prefix' isOrdered =
     (let items = filter (\<lambda>child. tagName child = lit ''li'') (children listElement) in
      join (lit ''\<newline>'')
        (map (\<lambda>(index, item).
            (let itemPrefix =
                   (if isOrdered then toString (index + 1) @ lit ''. ''
                    else (case prefix' of Some p \<Rightarrow> p | None \<Rightarrow> lit ''null''))
             in itemPrefix @ trim (processElement item)))
          (enumerate 0 items)))"
| "processTable table =
     (let rows = querySelectorAll [lit ''tr''] table in
      if length rows = 0 then []
      else
        foldl (\<lambda>result (rowIndex, row).
            (let cells = querySelectorAll [lit ''td'', lit ''th''] row;
                 cellContents = map (\<lambda>cell. replaceNewlines (trim (processElement cell))) cells;
                 result1 = result @ lit ''| '' @ join (lit '' | '') cellContents @ lit '' |\<newline>''
             in if rowIndex = 0 \<and> querySelector [lit ''th''] row \<noteq> None
                then result1 @ lit ''| '' @ join (lit '' | '') (map (\<lambda>cell. lit ''---'') cells)
                       @ lit '' |\<newline>''
                else result1))
          (lit ''\<newline>'') (enumerate 0 rows)
        @ lit ''\<newline>'')"
  by pat_completeness auto
termination
proof (relation "measures [
    (\<lambda>x. case x of Inl (Inl e) \<Rightarrow> size e | Inl (Inr e) \<Rightarrow> size e
          | Inr (Inl (e, p, b)) \<Rightarrow> size e | Inr (Inr e) \<Rightarrow> size e),
    (\<lambda>x. case x of Inl (Inl e) \<Rightarrow> 0 | Inl (Inr e) \<Rightarrow> 2
          | Inr (Inl (e, p, b)) \<Rightarrow> 1 | Inr (Inr e) \<Rightarrow> 1)]",
    goal_cases)
  case 1
  show ?case by simp
qed (auto simp: in_set_enumerate_eq size_list_item size_table_cell dest: size_childNodes)

declare processElement.simps [simp del] convertElementToMarkdown.simps [simp del]
  processListItems.simps [simp del] processTable.simps [simp del]

section \<open>Markdown Emitter (src/unnamed/part_001)\<close>

text \<open>
  The second file has its own copy of the four emitter methods (lines 215 to 349); they are
  embedded from that text, under the names of the source with the suffix \<open>_part001\<close>.
\<close>

function processElement_part001 :: "node \<Rightarrow> jsstring"
  and convertElementToMarkdown_part001 :: "node \<Rightarrow> jsstring"
  and processListItems_part001 :: "node \<Rightarrow> jsstring option \<Rightarrow> bool \<Rightarrow> jsstring"
  and processTable_part001 :: "node \<Rightarrow> jsstring"
where
  "processElement_part001 element =
     concat (map (\<lambda>node.
        case node of
          Text s \<Rightarrow> (let text = trim s in if text \<noteq> [] then text @ lit '' '' else [])
        | Element t a cs \<Rightarrow> convertElementToMarkdown_part001 node
        | Comment s \<Rightarrow> [])
      (childNodes element))"
| "convertElementToMarkdown_part001 element =
     (let tag = tagName element; text = trim (textContent element) in
      if text = [] \<and> tag \<notin> set [lit ''br'', lit ''hr'', lit ''img''] then []
      else if tag = lit ''h1'' then lit ''\<newline># '' @ text @ lit ''\<newline>\<newline>''
      else if tag = lit ''h2'' then lit ''\<newline>## '' @ text @ lit ''\<newline>\<newline>''
      else if tag = lit ''h3'' then lit ''\<newline>### '' @ text @ lit ''\<newline>\<newline>''
      else if tag = lit ''h4'' then lit ''\<newline>#### '' @ text @ lit ''\<newline>\<newline>''
      else if tag = lit ''h5'' then lit ''\<newline>##### '' @ text @ lit ''\<newline>\<newline>''
      else if tag = lit ''h6'' then lit ''\<newline>###### '' @ text @ lit ''\<newline>\<newline>''
      else if tag = lit ''p'' then
        lit ''\<newline>'' @ processElement_part001 element @ lit ''\<newline>\<newline>''
      else if tag = lit ''br'' then lit ''\<newline>''
      else if tag = lit ''hr'' then lit ''\<newline>---\<newline>\<newline>''
      else if tag = lit ''strong'' \<or> tag = lit ''b'' then lit ''**'' @ text @ lit ''**''
      else if tag = lit ''em'' \<or> tag = lit ''i'' then lit ''*'' @ text @ lit ''*''
      else if tag = lit ''code'' then lit ''`'' @ text @ lit ''`''
      else if tag = lit ''var'' then lit ''$'' @ text @ lit ''$''
      else if tag = lit ''pre'' then
        (let codeElement = querySelector [lit ''code''] element;
             codeText = (case codeElement of Some c \<Rightarrow> textContent c | None \<Rightarrow> text)
         in lit ''\<newline>```\<newline>'' @ codeText @ lit ''\<newline>```\<newline>\<newline>'')
      else if tag = lit ''blockquote'' then
        lit ''\<newline>> '' @ processElement_part001 element @ lit ''\<newline>\<newline>''
      else if tag = lit ''a'' then
        (case getAttribute element (lit ''href'') of
           Some href \<Rightarrow>
             if href \<noteq> [] then lit ''['' @ text @ lit '']('' @ href @ lit '')'' else text
         | None \<Rightarrow> text)
      else if tag = lit ''img'' then
        (let src = getAttribute element (lit ''src'');
             alt = (case getAttribute element (lit ''alt'') of
                      Some v \<Rightarrow> if v \<noteq> [] then v else []
                    | None \<Rightarrow> [])
         in case src of
              Some v \<Rightarrow> if v \<noteq> [] then lit ''!['' @ alt @ lit '']('' @ v @ lit '')'' else []
            | None \<Rightarrow> [])
      else if tag = lit ''ul'' then
        lit ''\<newline>'' @ processListItems_part001 element (Some (lit ''- '')) False @ lit ''\<newline>''
      else if tag = lit ''ol'' then
        lit ''\<newline>'' @ processListItems_part001 element None True @ lit ''\<newline>''
      else if tag = lit ''li'' then processElement_part001 element
      else if tag = lit ''table'' then processTable_part001 element
      else if tag = lit ''div'' \<or> tag = lit ''span'' \<or> tag = lit ''section''
              \<or> tag = lit ''article'' then processElement_part001 element
      else processElement_part001 element)"
| "processListItems_part001 listElement prefix' isOrdered =
     (let items = filter (\<lambda>child. tagName child = lit ''li'') (children listElement) in
      join (lit ''\<newline>'')
        (map (\<lambda>(index, item).
            (let itemPrefix =
                   (if isOrdered then toString (index + 1) @ lit ''. ''
                    else (case prefix' of Some p \<Rightarrow> p | None \<Rightarrow> lit ''null''))
             in itemPrefix @ trim (processElement_part001 item)))
          (enumerate 0 items)))"
| "processTable_part001 table =
     (let rows = querySelectorAll [lit ''tr''] table in
      if length rows = 0 then []
      else
        foldl (\<lambda>result (rowIndex, row).
            (let cells = querySelectorAll [lit ''td'', lit ''th''] row;
                 cellContents = map (\<lambda>cell. replaceNewlines (trim (processElement_part001 cell))) cells;
                 result1 = result @ lit ''| '' @ join (lit '' | '') cellContents @ lit '' |\<newline>''
             in if rowIndex = 0 \<and> querySelector [lit ''th''] row \<noteq> None
                then result1 @ lit ''| '' @ join (lit '' | '') (map (\<lambda>cell. lit ''---'') cells)
                       @ lit '' |\<newline>''
                else result1))
          (lit ''\<newline>'') (enumerate 0 rows)
        @ lit ''\<newline>'')"
  by pat_completeness auto
termination
proof (relation "measures [
    (\<lambda>x. case x of Inl (Inl e) \<Rightarrow> size e | Inl (Inr e) \<Rightarrow> size e
          | Inr (Inl (e, p, b)) \<Rightarrow> size e | Inr (Inr e) \<Rightarrow> size e),
    (\<lambda>x. case x of Inl (Inl e) \<Rightarrow> 0 | Inl (Inr e) \<Rightarrow> 2
          | Inr (Inl (e, p, b)) \<Rightarrow> 1 | Inr (Inr e) \<Rightarrow> 1)]",
    goal_cases)
  case 1
  show ?case by simp
qed (auto simp: in_set_enumerate_eq size_list_item size_table_cell dest: size_childNodes)

declare processElement_part001.simps [simp del] convertElementToMarkdown_part001.simps [simp del]
  processListItems_part001.simps [simp del] processTable_part001.simps [simp del]


section \<open>Range Extractor (src/unnamed/part_001)\<close>

text \<open>
  The extractor compares elements by identity and walks along sibling and parent links.
  An element of the document is referred to by its path, the positions among the child
  nodes from the document node down to it, paired with the node found there.
  \<open>allElements\<close> is \<open>doc.querySelectorAll('*')\<close>: every element of the document,
  each before its descendants and before its later siblings.
\<close>

type_synonym path = "nat list"
type_synonym elementRef = "path \<times> node"

fun elementsAt :: "path \<Rightarrow> nat \<Rightarrow> node list \<Rightarrow> elementRef list" where
  "elementsAt p i [] = []"
| "elementsAt p i (Element t a cs # ns) =
     (p @ [i], Element t a cs) # elementsAt (p @ [i]) 0 cs @ elementsAt p (Suc i) ns"
| "elementsAt p i (n # ns) = elementsAt p (Suc i) ns"

definition allElements :: "document \<Rightarrow> elementRef list" where
  "allElements doc = elementsAt [] 0 doc"

text \<open>The child nodes of the node at a path; the empty path is the document node.\<close>

fun childNodesAt :: "node list \<Rightarrow> path \<Rightarrow> node list" where
  "childNodesAt ns [] = ns"
| "childNodesAt ns (i # p) = (if i < length ns then childNodesAt (childNodes (ns ! i)) p else [])"

text \<open>
  \<open>element.nextElementSibling\<close>: the first element among the later siblings, or null.
  \<open>element.parentElement\<close>: the parent when it is an element; the parent of a child of
  the document node is no element.
\<close>

definition nextElementSibling :: "document \<Rightarrow> path \<Rightarrow> elementRef option" where
  "nextElementSibling doc p =
     (if p = [] then None
      else
        (let siblings = childNodesAt doc (butlast p) in
         find (\<lambda>(q, n). isElement n)
           (map (\<lambda>j. (butlast p @ [j], siblings ! j)) [Suc (last p) ..< length siblings])))"

definition parentElement :: "path \<Rightarrow> path option" where
  "parentElement p = (if length p \<le> 1 then None else Some (butlast p))"

text \<open>
  A walk along \<open>nextElementSibling\<close> and \<open>parentElement\<close> ends: the number of later
  siblings, summed over the levels of the path, goes down with every step.
\<close>

fun laterSiblings :: "node list \<Rightarrow> path \<Rightarrow> nat" where
  "laterSiblings ns [] = 0"
| "laterSiblings ns (i # p) =
     (length ns - i) + (if i < length ns then laterSiblings (childNodes (ns ! i)) p else 0)"

lemma laterSiblings_append_le: "laterSiblings ns a \<le> laterSiblings ns (a @ r)"
  by (induction ns a rule: laterSiblings.induct) auto

lemma laterSiblings_step:
  "i < j \<Longrightarrow> j < length (childNodesAt ns a) \<Longrightarrow>
     laterSiblings ns (a @ [j]) < laterSiblings ns (a @ [i])"
  by (induction ns a rule: laterSiblings.induct) (auto split: if_splits)

lemma nextElementSibling_SomeD:
  assumes "nextElementSibling doc p = Some (q, n)"
  shows "\<exists>j. p \<noteq> [] \<and> q = butlast p @ [j] \<and> last p < j
            \<and> j < length (childNodesAt doc (butlast p))
            \<and> n = childNodesAt doc (butlast p) ! j \<and> isElement n"
  using assms
  by (auto simp: nextElementSibling_def Let_def find_Some_iff split: if_splits)

lemma nextElementSibling_less:
  assumes "nextElementSibling doc a = Some (q, n)"
  shows "laterSiblings doc q < laterSiblings doc (a @ r)"
proof -
  from nextElementSibling_SomeD [OF assms] obtain j where j:
    "a \<noteq> []" "q = butlast a @ [j]" "last a < j" "j < length (childNodesAt doc (butlast a))"
    by blast
  have "laterSiblings doc (butlast a @ [j]) < laterSiblings doc (butlast a @ [last a])"
    using j(3,4) by (rule laterSiblings_step)
  also have "butlast a @ [last a] = a"
    using j(1) by simp
  also have "laterSiblings doc a \<le> laterSiblings doc (a @ r)"
    by (rule laterSiblings_append_le)
  finally show ?thesis
    using j(2) by simp
qed

text \<open>
  \<open>getNextElement\<close>: the next sibling element when there is one; otherwise the loop
  over the ancestors (\<open>getNextElement_loop\<close>, started at \<open>element.parentElement\<close>) returns
  the next sibling element of the nearest ancestor that has one, or null.
\<close>

function getNextElement_loop :: "document \<Rightarrow> path option \<Rightarrow> elementRef option" where
  "getNextElement_loop doc None = None"
| "getNextElement_loop doc (Some parent) =
     (case nextElementSibling doc parent of
        Some e \<Rightarrow> Some e
      | None \<Rightarrow> getNextElement_loop doc (parentElement parent))"
  by pat_completeness auto
termination
  by (relation "measure (\<lambda>(doc, parent). case parent of None \<Rightarrow> 0 | Some p \<Rightarrow> Suc (length p))")
    (auto simp: parentElement_def split: if_splits)

definition getNextElement :: "document \<Rightarrow> path \<Rightarrow> elementRef option" where
  "getNextElement doc element =
     (case nextElementSibling doc element of
        Some e \<Rightarrow> Some e
      | None \<Rightarrow> getNextElement_loop doc (parentElement element))"

lemma getNextElement_loop_less:
  "getNextElement_loop doc parent = Some (q, n) \<Longrightarrow> parent = Some a \<Longrightarrow>
     laterSiblings doc q < laterSiblings doc (a @ r)"
proof (induction doc parent arbitrary: a r rule: getNextElement_loop.induct)
  case (1 doc)
  then show ?case by simp
next
  case (2 doc parent)
  show ?case
  proof (cases "nextElementSibling doc parent")
    case (Some e)
    with "2.prems" show ?thesis
      by (auto intro: nextElementSibling_less)
  next
    case None
    with "2.prems" have up: "getNextElement_loop doc (parentElement parent) = Some (q, n)"
      and a: "a = parent"
      by simp_all
    from up have len: "1 < length parent" and pe: "parentElement parent = Some (butlast parent)"
      by (auto simp: parentElement_def split: if_splits)
    have "laterSiblings doc q < laterSiblings doc (butlast parent @ ([last parent] @ r))"
      using "2.IH" [OF None up pe] .
    moreover have "butlast parent @ ([last parent] @ r) = parent @ r"
      using len by (cases parent rule: rev_cases) auto
    ultimately have "laterSiblings doc q < laterSiblings doc (parent @ r)"
      by (simp only:)
    then show ?thesis
      by (simp only: a)
  qed
qed

lemma getNextElement_less:
  assumes "getNextElement doc p = Some (q, n)"
  shows "laterSiblings doc q < laterSiblings doc p"
proof (cases "nextElementSibling doc p")
  case (Some e)
  with assms have "nextElementSibling doc p = Some (q, n)"
    by (simp add: getNextElement_def)
  from nextElementSibling_less [OF this, of "[]"] show ?thesis by simp
next
  case None
  with assms have up: "getNextElement_loop doc (parentElement p) = Some (q, n)"
    by (simp add: getNextElement_def)
  then have pe: "parentElement p = Some (butlast p)" and len: "1 < length p"
    by (auto simp: parentElement_def split: if_splits)
  have "laterSiblings doc q < laterSiblings doc (butlast p @ [last p])"
    using getNextElement_loop_less [OF up pe] .
  moreover have "butlast p @ [last p] = p"
    using len by (cases p rule: rev_cases) auto
  ultimately show ?thesis by simp
qed

text \<open>
  \<open>extractElementsRange\<close>. \<open>cloneNode(true)\<close> copies the subtree. \<open>collectRange\<close> is
  the loop \<open>while (nextElement && nextElement !== endElement)\<close>; \<open>containerOrNull\<close> is the
  end of the method, which appends the collected clones to a new \<open>div\<close> and returns it
  when it has a child, null otherwise.
\<close>

definition cloneNode :: "node \<Rightarrow> node" where
  "cloneNode n = n"

function collectRange :: "document \<Rightarrow> path \<Rightarrow> elementRef option \<Rightarrow> node list" where
  "collectRange doc endElement None = []"
| "collectRange doc endElement (Some (q, n)) =
     (if q = endElement then []
      else cloneNode n # collectRange doc endElement (getNextElement doc q))"
  by pat_completeness auto
termination
  by (relation "measure (\<lambda>(doc, endElement, nextElement).
        case nextElement of None \<Rightarrow> 0 | Some (q, n) \<Rightarrow> Suc (laterSiblings doc q))")
    (auto dest: getNextElement_less split: option.splits)

definition containerOrNull :: "node list \<Rightarrow> node option" where
  "containerOrNull elementsToInclude =
     (let container = Element (lit ''div'') [] elementsToInclude in
      if length (children container) > 0 then Some container else None)"

definition extractElementsRange :: "document \<Rightarrow> elementRef \<Rightarrow> elementRef \<Rightarrow> node option" where
  "extractElementsRange doc startElement endElement =
     containerOrNull
       (cloneNode (snd startElement)
          # collectRange doc (fst endElement) (getNextElement doc (fst startElement)))"

text \<open>
  \<open>extractSpecificSection\<close>. The start marker and the three end markers are the
  literals of the source (the Japanese ones by their UTF-16 code units). A string is
  tested for truthiness before \<open>includes\<close> is called on it.
\<close>

definition startMarker :: jsstring where
  "startMarker = [0x5B9F, 0x884C, 0x6642, 0x9593, 0x5236, 0x9650, 0x003A]"

definition endMarkers :: "jsstring list" where
  "endMarkers =
     [lit ''Problem Statement'',
      [0x554F, 0x984C, 0x6587],
      [0x554F, 0x984C, 0x306E, 0x8AAC, 0x660E]]"

definition containsStart :: "node \<Rightarrow> bool" where
  "containsStart element =
     (let textContent = textContent element in
      textContent \<noteq> [] \<and> includes_str textContent startMarker)"

definition containsEnd :: "node \<Rightarrow> bool" where
  "containsEnd element =
     (let textContent = textContent element in
      textContent \<noteq> [] \<and> list_ex (includes_str textContent) endMarkers)"

fun findStart :: "elementRef list \<Rightarrow> elementRef option" where
  "findStart [] = None"
| "findStart (element # rest) =
     (if containsStart (snd element) then Some element else findStart rest)"

fun findEnd :: "path \<Rightarrow> bool \<Rightarrow> elementRef list \<Rightarrow> elementRef option" where
  "findEnd startElement foundStart [] = None"
| "findEnd startElement foundStart (element # rest) =
     (if fst element = startElement then findEnd startElement True rest
      else if foundStart \<and> containsEnd (snd element) then Some element
      else findEnd startElement foundStart rest)"

definition extractSpecificSection :: "document \<Rightarrow> node option" where
  "extractSpecificSection doc =
     (let allElements = allElements doc in
      case findStart allElements of
        None \<Rightarrow> None
      | Some startElement \<Rightarrow>
          (case findEnd (fst startElement) False allElements of
             None \<Rightarrow> None
           | Some endElement \<Rightarrow> extractElementsRange doc startElement endElement))"

section \<open>Conversion Orchestrator (src/unnamed/part_001)\<close>

text \<open>
  \<open>convertHtmlToMarkdown\<close>. The HTML parser is outside the repository and is a
  parameter: it gives the document, or fails (\<open>None\<close>). Whatever is thrown inside the
  \<open>try\<close> block is thrown again as the one \<open>Error\<close> of the \<open>catch\<close> block. The warning
  is an ordinary string return value. \<open>renderExtracted\<close> is the part of the method after
  the extraction (lines 98 to 103).
\<close>

datatype error = Error jsstring

definition parseFailureMessage :: jsstring where
  "parseFailureMessage =
     lit ''HTML'' @ [0x89E3, 0x6790, 0x306B, 0x5931, 0x6557, 0x3057, 0x307E, 0x3057, 0x305F]"

definition warningNotice :: jsstring where
  "warningNotice =
     [0x26A0, 0xFE0F, 0x0020, 0x8B66, 0x544A, 0x003A, 0x0020, 0x0022]
     @ startMarker
     @ [0x0022, 0x0020, 0x304B, 0x3089, 0x0020, 0x0022] @ lit ''Problem Statement''
     @ [0x0022, 0x0020, 0x307E, 0x3067, 0x306E, 0x90E8, 0x5206, 0x304C, 0x898B, 0x3064,
        0x304B, 0x308A, 0x307E, 0x305B, 0x3093, 0x3067, 0x3057, 0x305F, 0x3002,
        0x000A, 0x000A]
     @ lit ''HTML''
     @ [0x30D5, 0x30A1, 0x30A4, 0x30EB, 0x306E, 0x69CB, 0x9020, 0x3092, 0x78BA, 0x8A8D,
        0x3057, 0x3066, 0x304F, 0x3060, 0x3055, 0x3044, 0x3002]"

definition renderExtracted :: "node option \<Rightarrow> jsstring" where
  "renderExtracted extractedContent =
     (case extractedContent of
        None \<Rightarrow> warningNotice
      | Some container \<Rightarrow> trim (processElement_part001 container))"

definition convertHtmlToMarkdown ::
  "(jsstring \<Rightarrow> document option) \<Rightarrow> jsstring \<Rightarrow> error + jsstring" where
  "convertHtmlToMarkdown parseFromString html =
     (case parseFromString html of
        None \<Rightarrow> Inl (Error parseFailureMessage)
      | Some doc \<Rightarrow>
          (let doc1 = removeUnwantedElements doc;
               extractedContent = extractSpecificSection doc1
           in Inr (renderExtracted extractedContent)))"


section \<open>Markdown Emitter on a store (src/js/converter.js)\<close>

text \<open>
  The emitter reads the document through the properties and methods of its nodes. To
  state what it does to the document, the same methods are embedded a second time as
  computations on a store: the store is the tree that holds the nodes, a reference to a
  node is its path from the root of the store, and a computation takes the store and
  returns its result together with the store it leaves. It returns \<open>None\<close> when a
  reference points to no node or when the calls nest deeper than the fuel allows.
\<close>

datatype nodeType = TEXT_NODE | ELEMENT_NODE | OTHER_NODE

fun nodeAt :: "node \<Rightarrow> path \<Rightarrow> node option" where
  "nodeAt n [] = Some n"
| "nodeAt n (i # p) =
     (if i < length (childNodes n) then nodeAt (childNodes n ! i) p else None)"

type_synonym 'a dom = "node \<Rightarrow> ('a \<times> node) option"

definition return_st :: "'a \<Rightarrow> 'a dom" where
  "return_st x = (\<lambda>store. Some (x, store))"

definition bind_st :: "'a dom \<Rightarrow> ('a \<Rightarrow> 'b dom) \<Rightarrow> 'b dom" where
  "bind_st m f = (\<lambda>store. case m store of None \<Rightarrow> None | Some (x, store1) \<Rightarrow> f x store1)"

definition read_st :: "path \<Rightarrow> (node \<Rightarrow> 'a) \<Rightarrow> 'a dom" where
  "read_st ref getter =
     (\<lambda>store. case nodeAt store ref of None \<Rightarrow> None | Some n \<Rightarrow> Some (getter n, store))"

text \<open>
  Loops over a list of references: \<open>map\<close>, a \<open>forEach\<close> that accumulates, and
  \<open>filter\<close>, each running its body on the store left by the step before.
\<close>

fun traverse_st :: "('a \<Rightarrow> 'b dom) \<Rightarrow> 'a list \<Rightarrow> 'b list dom" where
  "traverse_st f [] = return_st []"
| "traverse_st f (x # xs) =
     bind_st (f x) (\<lambda>y. bind_st (traverse_st f xs) (\<lambda>ys. return_st (y # ys)))"

fun foldl_st :: "('b \<Rightarrow> 'a \<Rightarrow> 'b dom) \<Rightarrow> 'b \<Rightarrow> 'a list \<Rightarrow> 'b dom" where
  "foldl_st f acc [] = return_st acc"
| "foldl_st f acc (x # xs) = bind_st (f acc x) (\<lambda>acc1. foldl_st f acc1 xs)"

fun filter_st :: "('a \<Rightarrow> bool dom) \<Rightarrow> 'a list \<Rightarrow> 'a list dom" where
  "filter_st p [] = return_st []"
| "filter_st p (x # xs) =
     bind_st (p x) (\<lambda>keep. bind_st (filter_st p xs) (\<lambda>ys.
     return_st (if keep then x # ys else ys)))"

text \<open>
  The properties and methods that the emitter uses: \<open>childNodes\<close>, \<open>children\<close>,
  \<open>nodeType\<close>, \<open>textContent\<close>, \<open>tagName\<close>, \<open>getAttribute\<close>, \<open>querySelectorAll\<close>
  and \<open>querySelector\<close>. Node lists are returned as lists of references.
\<close>

definition childNodes_st :: "path \<Rightarrow> path list dom" where
  "childNodes_st ref = read_st ref (\<lambda>n. map (\<lambda>i. ref @ [i]) [0 ..< length (childNodes n)])"

definition children_st :: "path \<Rightarrow> path list dom" where
  "children_st ref =
     read_st ref (\<lambda>n. map (\<lambda>i. ref @ [i])
       (filter (\<lambda>i. isElement (childNodes n ! i)) [0 ..< length (childNodes n)]))"

definition nodeType_st :: "path \<Rightarrow> nodeType dom" where
  "nodeType_st ref =
     read_st ref (\<lambda>n. case n of Text s \<Rightarrow> TEXT_NODE | Element t a cs \<Rightarrow> ELEMENT_NODE
                         | Comment s \<Rightarrow> OTHER_NODE)"

definition textContent_st :: "path \<Rightarrow> jsstring dom" where
  "textContent_st ref = read_st ref textContent"

definition tagName_st :: "path \<Rightarrow> jsstring dom" where
  "tagName_st ref = read_st ref tagName"

definition getAttribute_st :: "path \<Rightarrow> jsstring \<Rightarrow> jsstring option dom" where
  "getAttribute_st ref name = read_st ref (\<lambda>n. getAttribute n name)"

definition querySelectorAll_st :: "jsstring list \<Rightarrow> path \<Rightarrow> path list dom" where
  "querySelectorAll_st sel ref =
     read_st ref (\<lambda>n. map fst (filter (\<lambda>(q, e). tagName e \<in> set sel)
                                  (elementsAt ref 0 (childNodes n))))"

definition querySelector_st :: "jsstring list \<Rightarrow> path \<Rightarrow> path option dom" where
  "querySelector_st sel ref =
     bind_st (querySelectorAll_st sel ref)
       (\<lambda>found. return_st (case found of [] \<Rightarrow> None | e # es \<Rightarrow> Some e))"

text \<open>
  \<open>el.remove()\<close>, the method with which \<open>removeUnwantedElements\<close> changes the
  document: the node leaves the child nodes of its parent. The emitter does not call it.
\<close>

fun removeAt :: "node \<Rightarrow> path \<Rightarrow> node" where
  "removeAt n [] = n"
| "removeAt (Element t a cs) [i] = Element t a (take i cs @ drop (Suc i) cs)"
| "removeAt (Element t a cs) (i # j # p) =
     (if i < length cs then Element t a (cs[i := removeAt (cs ! i) (j # p)])
      else Element t a cs)"
| "removeAt n (i # p) = n"

definition remove_st :: "path \<Rightarrow> unit dom" where
  "remove_st ref = (\<lambda>store. Some ((), removeAt store ref))"

text \<open>
  The four methods of the emitter, statement by statement as in the source, every
  access to a node going through the store. The first argument is the fuel.
\<close>

fun processElement_st :: "nat \<Rightarrow> path \<Rightarrow> jsstring dom"
  and convertElementToMarkdown_st :: "nat \<Rightarrow> path \<Rightarrow> jsstring dom"
  and processListItems_st :: "nat \<Rightarrow> path \<Rightarrow> jsstring option \<Rightarrow> bool \<Rightarrow> jsstring dom"
  and processTable_st :: "nat \<Rightarrow> path \<Rightarrow> jsstring dom"
where
  "processElement_st 0 element = (\<lambda>store. None)"
| "processElement_st (Suc fuel) element =
     bind_st (childNodes_st element) (\<lambda>nodes.
     bind_st (traverse_st (\<lambda>node.
         bind_st (nodeType_st node) (\<lambda>nodeType.
           if nodeType = TEXT_NODE then
             bind_st (textContent_st node) (\<lambda>textContent.
               (let text = trim textContent in
                return_st (if text \<noteq> [] then text @ lit '' '' else [])))
           else if nodeType = ELEMENT_NODE then convertElementToMarkdown_st fuel node
           else return_st []))
       nodes) (\<lambda>parts.
     return_st (concat parts)))"
| "convertElementToMarkdown_st 0 element = (\<lambda>store. None)"
| "convertElementToMarkdown_st (Suc fuel) element =
     bind_st (tagName_st element) (\<lambda>tag.
     bind_st (textContent_st element) (\<lambda>textContent.
     (let text = trim textContent in
      if text = [] \<and> tag \<notin> set [lit ''br'', lit ''hr'', lit ''img''] then return_st []
      else if tag = lit ''h1'' then return_st (lit ''\<newline># '' @ text @ lit ''\<newline>\<newline>'')
      else if tag = lit ''h2'' then return_st (lit ''\<newline>## '' @ text @ lit ''\<newline>\<newline>'')
      else if tag = lit ''h3'' then return_st (lit ''\<newline>### '' @ text @ lit ''\<newline>\<newline>'')
      else if tag = lit ''h4'' then return_st (lit ''\<newline>#### '' @ text @ lit ''\<newline>\<newline>'')
      else if tag = lit ''h5'' then return_st (lit ''\<newline>##### '' @ text @ lit ''\<newline>\<newline>'')
      else if tag = lit ''h6'' then return_st (lit ''\<newline>###### '' @ text @ lit ''\<newline>\<newline>'')
      else if tag = lit ''p'' then
        bind_st (processElement_st fuel element) (\<lambda>inner.
        return_st (lit ''\<newline>'' @ inner @ lit ''\<newline>\<newline>''))
      else if tag = lit ''br'' then return_st (lit ''\<newline>'')
      else if tag = lit ''hr'' then return_st (lit ''\<newline>---\<newline>\<newline>'')
      else if tag = lit ''strong'' \<or> tag = lit ''b'' then return_st (lit ''**'' @ text @ lit ''**'')
      else if tag = lit ''em'' \<or> tag = lit ''i'' then return_st (lit ''*'' @ text @ lit ''*'')
      else if tag = lit ''code'' then return_st (lit ''`'' @ text @ lit ''`'')
      else if tag = lit ''var'' then return_st (lit ''$'' @ text @ lit ''$'')
      else if tag = lit ''pre'' then
        bind_st (querySelector_st [lit ''code''] element) (\<lambda>codeElement.
        bind_st (case codeElement of
                    Some c \<Rightarrow> textContent_st c
                  | None \<Rightarrow> return_st text) (\<lambda>codeText.
        return_st (lit ''\<newline>```\<newline>'' @ codeText @ lit ''\<newline>```\<newline>\<newline>'')))
      else if tag = lit ''blockquote'' then
        bind_st (processElement_st fuel element) (\<lambda>inner.
        return_st (lit ''\<newline>> '' @ inner @ lit ''\<newline>\<newline>''))
      else if tag = lit ''a'' then
        bind_st (getAttribute_st element (lit ''href'')) (\<lambda>href.
        return_st (case href of
                      Some h \<Rightarrow> if h \<noteq> [] then lit ''['' @ text @ lit '']('' @ h @ lit '')''
                                else text
                    | None \<Rightarrow> text))
      else if tag = lit ''img'' then
        bind_st (getAttribute_st element (lit ''src'')) (\<lambda>src.
        bind_st (getAttribute_st element (lit ''alt'')) (\<lambda>altAttribute.
        (let alt = (case altAttribute of Some v \<Rightarrow> if v \<noteq> [] then v else [] | None \<Rightarrow> [])
         in return_st (case src of
                          Some v \<Rightarrow> if v \<noteq> [] then lit ''!['' @ alt @ lit '']('' @ v @ lit '')''
                                    else []
                        | None \<Rightarrow> []))))
      else if tag = lit ''ul'' then
        bind_st (processListItems_st fuel element (Some (lit ''- '')) False) (\<lambda>items.
        return_st (lit ''\<newline>'' @ items @ lit ''\<newline>''))
      else if tag = lit ''ol'' then
        bind_st (processListItems_st fuel element None True) (\<lambda>items.
        return_st (lit ''\<newline>'' @ items @ lit ''\<newline>''))
      else if tag = lit ''li'' then processElement_st fuel element
      else if tag = lit ''table'' then processTable_st fuel element
      else if tag = lit ''div'' \<or> tag = lit ''span'' \<or> tag = lit ''section''
              \<or> tag = lit ''article'' then processElement_st fuel element
      else processElement_st fuel element)))"
| "processListItems_st 0 listElement prefix' isOrdered = (\<lambda>store. None)"
| "processListItems_st (Suc fuel) listElement prefix' isOrdered =
     bind_st (children_st listElement) (\<lambda>children.
     bind_st (filter_st (\<lambda>child.
         bind_st (tagName_st child) (\<lambda>tag. return_st (tag = lit ''li''))) children) (\<lambda>items.
     bind_st (traverse_st (\<lambda>(index, item).
         (let itemPrefix =
                (if isOrdered then toString (index + 1) @ lit ''. ''
                 else (case prefix' of Some p \<Rightarrow> p | None \<Rightarrow> lit ''null''))
          in bind_st (processElement_st fuel item) (\<lambda>inner.
             return_st (itemPrefix @ trim inner))))
       (enumerate 0 items)) (\<lambda>lines.
     return_st (join (lit ''\<newline>'') lines))))"
| "processTable_st 0 table = (\<lambda>store. None)"
| "processTable_st (Suc fuel) table =
     bind_st (querySelectorAll_st [lit ''tr''] table) (\<lambda>rows.
     if length rows = 0 then return_st []
     else
       bind_st (foldl_st (\<lambda>result (rowIndex, row).
           bind_st (querySelectorAll_st [lit ''td'', lit ''th''] row) (\<lambda>cells.
           bind_st (traverse_st (\<lambda>cell.
               bind_st (processElement_st fuel cell) (\<lambda>inner.
               return_st (replaceNewlines (trim inner)))) cells) (\<lambda>cellContents.
           (let result1 = result @ lit ''| '' @ join (lit '' | '') cellContents @ lit '' |\<newline>''
            in bind_st (querySelector_st [lit ''th''] row) (\<lambda>header.
               return_st
                 (if rowIndex = 0 \<and> header \<noteq> None
                  then result1 @ lit ''| '' @ join (lit '' | '') (map (\<lambda>cell. lit ''---'') cells)
                         @ lit '' |\<newline>''
                  else result1))))))
         (lit ''\<newline>'') (enumerate 0 rows)) (\<lambda>result.
       return_st (result @ lit ''\<newline>'')))"

text \<open>A list of references and the list of the nodes they point to.\<close>

definition refers :: "node \<Rightarrow> path list \<Rightarrow> node list \<Rightarrow> bool" where
  "refers store refs nodes = list_all2 (\<lambda>q e. nodeAt store q = Some e) refs nodes"

section \<open>Notions used in the statements\<close>

text \<open>The tags of the elements below a list of sibling nodes.\<close>

definition tagsOf :: "node list \<Rightarrow> jsstring set" where
  "tagsOf ns = tagName ` set (descendantElements ns)"

text \<open>What one child node adds to the result of \<open>processElement\<close>.\<close>

definition piece :: "node \<Rightarrow> jsstring" where
  "piece node =
     (case node of
        Text s \<Rightarrow> (let text = trim s in if text \<noteq> [] then text @ lit '' '' else [])
      | Element t a cs \<Rightarrow> convertElementToMarkdown node
      | Comment s \<Rightarrow> [])"

text \<open>
  Table rendering in the words of the specification: the cells of a row are its \<open>td\<close>
  and \<open>th\<close> descendants; a row is rendered between pipes, each cell trimmed with its
  newlines turned into spaces; the separator row has one \<open>---\<close> per cell of the row; the
  table is its first row, the separator row when the first row has a \<open>th\<close> cell, and the
  other rows, between a leading and a trailing newline; a table without rows is the empty
  string.
\<close>

definition spec_cells :: "node \<Rightarrow> node list" where
  "spec_cells row = querySelectorAll [lit ''td'', lit ''th''] row"

definition spec_tableRow :: "node \<Rightarrow> jsstring" where
  "spec_tableRow row =
     lit ''| ''
     @ join (lit '' | '')
         (map (\<lambda>cell. replaceNewlines (trim (processElement cell))) (spec_cells row))
     @ lit '' |\<newline>''"

definition spec_separatorRow :: "node \<Rightarrow> jsstring" where
  "spec_separatorRow row =
     lit ''| '' @ join (lit '' | '') (replicate (length (spec_cells row)) (lit ''---''))
     @ lit '' |\<newline>''"

definition spec_hasHeaderCell :: "node \<Rightarrow> bool" where
  "spec_hasHeaderCell row = list_ex (\<lambda>cell. tagName cell = lit ''th'') (spec_cells row)"

definition spec_renderTable :: "node \<Rightarrow> jsstring" where
  "spec_renderTable table =
     (case querySelectorAll [lit ''tr''] table of
        [] \<Rightarrow> []
      | first # rest \<Rightarrow>
          lit ''\<newline>'' @ spec_tableRow first
          @ (if spec_hasHeaderCell first then spec_separatorRow first else [])
          @ concat (map spec_tableRow rest)
          @ lit ''\<newline>'')"

text \<open>
  List rendering: the direct \<open>li\<close> children of a list element, the bullet or number
  prefix of the item at a position, and the lines of the list, one for each direct \<open>li\<close>
  child. An \<open>hr\<close>, and an \<open>img\<close> with a non-empty \<open>src\<close>, render although they have
  no text.
\<close>

definition listItems :: "node \<Rightarrow> node list" where
  "listItems listElement = filter (\<lambda>child. tagName child = lit ''li'') (children listElement)"

definition itemPrefix :: "jsstring \<Rightarrow> nat \<Rightarrow> jsstring" where
  "itemPrefix tag index =
     (if tag = lit ''ol'' then toString (index + 1) @ lit ''. '' else lit ''- '')"

definition listLines :: "node \<Rightarrow> jsstring list" where
  "listLines listElement =
     map (\<lambda>(index, item). itemPrefix (tagName listElement) index @ trim (processElement item))
       (enumerate 0 (listItems listElement))"

definition rendersWithoutText :: "node \<Rightarrow> bool" where
  "rendersWithoutText c \<longleftrightarrow>
     tagName c = lit ''hr''
     \<or> (tagName c = lit ''img''
        \<and> (case getAttribute c (lit ''src'') of Some v \<Rightarrow> v \<noteq> [] | None \<Rightarrow> False))"

text \<open>
  Positions in the list of all elements: the first element whose text content has the
  start marker is at position \<open>i\<close>; no element after position \<open>i\<close> has an end marker.
\<close>

definition isStartIndex :: "elementRef list \<Rightarrow> nat \<Rightarrow> bool" where
  "isStartIndex els i \<longleftrightarrow>
     i < length els \<and> containsStart (snd (els ! i))
     \<and> \<not> list_ex (\<lambda>e. containsStart (snd e)) (take i els)"

definition noEndAfter :: "elementRef list \<Rightarrow> nat \<Rightarrow> bool" where
  "noEndAfter els i \<longleftrightarrow> \<not> list_ex (\<lambda>e. containsEnd (snd e)) (drop (Suc i) els)"

text \<open>
  Example pages. \<open>pageBoth\<close> has the start marker and, later, an end marker;
  \<open>pageAdjacent\<close> has the two markers in adjacent elements, nothing between them;
  \<open>pageNoEnd\<close> has the start marker only; \<open>pageNoStart\<close> has neither; the text of
  \<open>pageNotice\<close> is the warning notice itself.
\<close>

definition pageBoth :: document where
  "pageBoth =
     [Element (lit ''html'') []
        [Element (lit ''head'') [] [],
         Element (lit ''body'') []
           [Element (lit ''div'') []
              [Element (lit ''p'') [] [Text (startMarker @ lit '' 2 sec'')]],
            Element (lit ''h3'') [] [Text (lit ''Problem Statement'')],
            Element (lit ''p'') [] [Text (lit ''Add two numbers.'')]]]]"


definition pageNoEnd :: document where
  "pageNoEnd =
     [Element (lit ''html'') []
        [Element (lit ''head'') [] [],
         Element (lit ''body'') []
           [Element (lit ''p'') [] [Text (startMarker @ lit '' 2 sec'')],
            Element (lit ''p'') [] [Text (lit ''Input'')]]]]"


definition pageNotice :: document where
  "pageNotice =
     [Element (lit ''html'') []
        [Element (lit ''head'') [] [],
         Element (lit ''body'') [] [Text warningNotice]]]"

section \<open>Properties of the Sanitizer\<close>

lemma tagsOf_simps [simp]:
  "tagsOf [] = {}"
  "tagsOf (Element t a cs # ns) = insert t (tagsOf cs \<union> tagsOf ns)"
  "tagsOf (Text s # ns) = tagsOf ns"
  "tagsOf (Comment s # ns) = tagsOf ns"
  by (auto simp: tagsOf_def)

lemma removeAll_absent: "selector \<notin> tagsOf ns \<Longrightarrow> removeAll selector ns = ns"
  by (induction selector ns rule: removeAll.induct) auto

lemma tagsOf_removeAll: "tagsOf (removeAll selector ns) \<subseteq> tagsOf ns - {selector}"
  by (induction selector ns rule: removeAll.induct) auto

lemma tagsOf_foldl_removeAll:
  "tagsOf (foldl (\<lambda>d s. removeAll s d) doc sels) \<subseteq> tagsOf doc - set sels"
proof (induction sels arbitrary: doc)
  case Nil
  show ?case by simp
next
  case (Cons s sels)
  have "tagsOf (foldl (\<lambda>d s. removeAll s d) (removeAll s doc) sels)
          \<subseteq> tagsOf (removeAll s doc) - set sels"
    by (rule Cons.IH)
  also have "\<dots> \<subseteq> tagsOf doc - set (s # sels)"
    using tagsOf_removeAll [of s doc] by auto
  finally show ?case by simp
qed

lemma foldl_removeAll_absent:
  "tagsOf doc \<inter> set sels = {} \<Longrightarrow> foldl (\<lambda>d s. removeAll s d) doc sels = doc"
  by (induction sels arbitrary: doc) (auto simp: removeAll_absent)

lemma sanitized_no_unwanted:
  "tagsOf (removeUnwantedElements doc) \<inter> set unwantedSelectors = {}"
  using tagsOf_foldl_removeAll [of doc unwantedSelectors]
  by (auto simp: removeUnwantedElements_def)

text \<open>
  Claim C6. The Sanitizer is idempotent: on a tree that has been sanitized, a second run
  of \<open>removeUnwantedElements\<close> changes nothing.
\<close>

theorem C6_sanitizer_idempotent:
  "removeUnwantedElements (removeUnwantedElements doc) = removeUnwantedElements doc"
proof -
  have "tagsOf (removeUnwantedElements doc) \<inter> set unwantedSelectors = {}"
    by (rule sanitized_no_unwanted)
  then have "foldl (\<lambda>d s. removeAll s d) (removeUnwantedElements doc) unwantedSelectors
               = removeUnwantedElements doc"
    by (rule foldl_removeAll_absent)
  then show ?thesis
    by (simp add: removeUnwantedElements_def)
qed

text \<open>
  The claim at a page whose \<open>head\<close> holds a \<open>script\<close> and whose \<open>body\<close> holds a
  \<open>noscript\<close> around a \<open>style\<close>: the first run removes all three, the second run keeps
  the result.
\<close>

theorem C6_sanitizer_idempotent_witness:
  "removeUnwantedElements
     [Element (lit ''html'') []
        [Element (lit ''head'') [] [Element (lit ''script'') [] [Text (lit ''x()'')]],
         Element (lit ''body'') []
           [Element (lit ''noscript'') [] [Element (lit ''style'') [] []],
            Element (lit ''p'') [] [Text (lit ''a'')]]]]
     = [Element (lit ''html'') []
          [Element (lit ''head'') [] [],
           Element (lit ''body'') [] [Element (lit ''p'') [] [Text (lit ''a'')]]]]
   \<and> removeUnwantedElements
       [Element (lit ''html'') []
          [Element (lit ''head'') [] [],
           Element (lit ''body'') [] [Element (lit ''p'') [] [Text (lit ''a'')]]]]
     = [Element (lit ''html'') []
          [Element (lit ''head'') [] [],
           Element (lit ''body'') [] [Element (lit ''p'') [] [Text (lit ''a'')]]]]"
proof -
  let ?doc = "[Element (lit ''html'') []
        [Element (lit ''head'') [] [Element (lit ''script'') [] [Text (lit ''x()'')]],
         Element (lit ''body'') []
           [Element (lit ''noscript'') [] [Element (lit ''style'') [] []],
            Element (lit ''p'') [] [Text (lit ''a'')]]]]"
  have first: "removeUnwantedElements ?doc
     = [Element (lit ''html'') []
          [Element (lit ''head'') [] [],
           Element (lit ''body'') [] [Element (lit ''p'') [] [Text (lit ''a'')]]]]"
    by (simp add: removeUnwantedElements_def unwantedSelectors_def lit_def)
  show ?thesis
    using C6_sanitizer_idempotent [of ?doc] unfolding first
    by (simp add: first)
qed

section \<open>Properties of the Markdown Emitter\<close>

text \<open>
  Claim C4. For an element whose trimmed text content is empty,
  \<open>convertElementToMarkdown\<close> gives the empty string unless the tag is \<open>br\<close>, \<open>hr\<close> or
  \<open>img\<close>: a \<open>br\<close> gives a newline, an \<open>hr\<close> the rule, an \<open>img\<close> its image link when
  it has a non-empty \<open>src\<close>, and the empty string when it has none.
\<close>

theorem C4_empty_text_suppressed:
  assumes "trim (textContent (Element t a cs)) = []"
  shows "convertElementToMarkdown (Element t a cs) =
     (if t = lit ''br'' then lit ''\<newline>''
      else if t = lit ''hr'' then lit ''\<newline>---\<newline>\<newline>''
      else if t = lit ''img'' then
        (case map_of a (lit ''src'') of
           None \<Rightarrow> []
         | Some v \<Rightarrow>
             if v = [] then []
             else lit ''!['' @ (case map_of a (lit ''alt'') of None \<Rightarrow> [] | Some w \<Rightarrow> w)
                    @ lit '']('' @ v @ lit '')'')
      else [])"
  using assms
  by (auto simp: convertElementToMarkdown.simps [of "Element t a cs"] lit_def Let_def
      split: option.splits)

text \<open>
  The claim at an \<open>img\<close> that has an \<open>alt\<close> but no \<open>src\<close>, and at a \<open>span\<close> that holds
  only white space.
\<close>

theorem C4_empty_text_suppressed_witness:
  "trim (textContent (Element (lit ''img'') [(lit ''alt'', lit ''x'')] [])) = []
   \<and> convertElementToMarkdown (Element (lit ''img'') [(lit ''alt'', lit ''x'')] []) = []
   \<and> trim (textContent (Element (lit ''span'') [] [Text (lit '' '')])) = []
   \<and> convertElementToMarkdown (Element (lit ''span'') [] [Text (lit '' '')]) = []"
proof -
  have h1: "trim (textContent (Element (lit ''img'') [(lit ''alt'', lit ''x'')] [])) = []"
    by (simp add: trim_def)
  have h2: "trim (textContent (Element (lit ''span'') [] [Text (lit '' '')])) = []"
    by (simp add: trim_def lit_def isWhiteSpace_def)
  show ?thesis
    using h1 h2 C4_empty_text_suppressed [OF h1] C4_empty_text_suppressed [OF h2]
    by (simp add: lit_def)
qed


subsection \<open>Lists\<close>

lemma trim_empty_iff: "trim s = [] \<longleftrightarrow> (\<forall>c \<in> set s. isWhiteSpace c)"
proof
  assume "trim s = []"
  then have "dropWhile isWhiteSpace (rev (dropWhile isWhiteSpace s)) = []"
    by (simp add: trim_def)
  then have all: "\<forall>c \<in> set (dropWhile isWhiteSpace s). isWhiteSpace c"
    by (simp add: dropWhile_eq_Nil_conv)
  have "dropWhile isWhiteSpace s = []"
  proof (rule ccontr)
    assume ne: "dropWhile isWhiteSpace s \<noteq> []"
    then have "\<not> isWhiteSpace (hd (dropWhile isWhiteSpace s))"
      by (rule hd_dropWhile)
    moreover have "hd (dropWhile isWhiteSpace s) \<in> set (dropWhile isWhiteSpace s)"
      using ne by simp
    ultimately show False using all by blast
  qed
  then show "\<forall>c \<in> set s. isWhiteSpace c"
    by (simp add: dropWhile_eq_Nil_conv)
next
  assume "\<forall>c \<in> set s. isWhiteSpace c"
  then have "dropWhile isWhiteSpace s = []"
    by (simp add: dropWhile_eq_Nil_conv)
  then have "rev (dropWhile isWhiteSpace (rev (dropWhile isWhiteSpace s))) = []"
    by (simp only: rev.simps dropWhile.simps)
  then show "trim s = []"
    by (simp only: trim_def)
qed

lemma convert_empty_text:
  assumes "trim (textContent (Element t a cs)) = []"
  shows "convertElementToMarkdown (Element t a cs) =
     (if t = lit ''br'' then lit ''\<newline>''
      else if t = lit ''hr'' then lit ''\<newline>---\<newline>\<newline>''
      else if t = lit ''img'' then
        (case map_of a (lit ''src'') of
           None \<Rightarrow> []
         | Some v \<Rightarrow>
             if v = [] then []
             else lit ''!['' @ (case map_of a (lit ''alt'') of None \<Rightarrow> [] | Some w \<Rightarrow> w)
                    @ lit '']('' @ v @ lit '')'')
      else [])"
  using assms
  by (auto simp: convertElementToMarkdown.simps [of "Element t a cs"] lit_def Let_def
      split: option.splits)

lemma processElement_pieces: "processElement e = concat (map piece (childNodes e))"
  unfolding processElement.simps [of e] piece_def ..

lemma child_text_blank:
  assumes "trim (textContent item) = []" "c \<in> set (childNodes item)" "\<not> isComment c"
  shows "trim (textContent c) = []"
proof -
  obtain t a cs where item: "item = Element t a cs"
    using assms(2) by (cases item) auto
  have "set (textContent c) \<subseteq> set (textContent item)"
    using assms(2,3) by (auto simp: item)
  then show ?thesis
    using assms(1) by (auto simp: trim_empty_iff)
qed

lemma piece_blank:
  assumes "trim (textContent item) = []" "c \<in> set (childNodes item)" "\<not> rendersWithoutText c"
  shows "set (piece c) \<subseteq> {0x000A}"
proof (cases c)
  case (Text s)
  with child_text_blank [OF assms(1,2)] show ?thesis
    by (simp add: piece_def)
next
  case (Comment s)
  then show ?thesis by (simp add: piece_def)
next
  case (Element t a cs)
  with child_text_blank [OF assms(1,2)] have "trim (textContent (Element t a cs)) = []"
    by simp
  from convert_empty_text [OF this]
  have "convertElementToMarkdown (Element t a cs) = (if t = lit ''br'' then lit ''\<newline>'' else [])"
    using assms(3)
    by (auto simp: Element rendersWithoutText_def lit_def split: option.splits)
  then show ?thesis
    by (auto simp: piece_def Element lit_def)
qed

lemma piece_renders:
  assumes "isElement c" "rendersWithoutText c" "trim (textContent c) = []"
  shows "\<exists>x \<in> set (piece c). \<not> isWhiteSpace x"
proof -
  obtain t a cs where c: "c = Element t a cs"
    using assms(1) by (cases c) auto
  from assms(3) have "trim (textContent (Element t a cs)) = []"
    by (simp add: c)
  from convert_empty_text [OF this]
  have "convertElementToMarkdown (Element t a cs) = lit ''\<newline>---\<newline>\<newline>''
      \<or> (\<exists>alt v. convertElementToMarkdown (Element t a cs)
                   = lit ''!['' @ alt @ lit '']('' @ v @ lit '')'')"
    using assms(2)
    by (auto simp: c rendersWithoutText_def lit_def split: option.splits)
  then show ?thesis
    by (auto simp: piece_def c lit_def isWhiteSpace_def)
qed

lemma blank_item_iff:
  assumes "trim (textContent item) = []"
  shows "trim (processElement item) = [] \<longleftrightarrow> \<not> list_ex rendersWithoutText (children item)"
proof
  assume blank: "trim (processElement item) = []"
  show "\<not> list_ex rendersWithoutText (children item)"
  proof
    assume "list_ex rendersWithoutText (children item)"
    then obtain c where c: "c \<in> set (childNodes item)" "isElement c" "rendersWithoutText c"
      by (auto simp: list_ex_iff children_def)
    have "\<not> isComment c" using c(2) by (cases c) auto
    from child_text_blank [OF assms c(1) this] piece_renders [OF c(2,3)]
    obtain x where "x \<in> set (piece c)" "\<not> isWhiteSpace x"
      by blast
    with c(1) have "\<exists>x \<in> set (processElement item). \<not> isWhiteSpace x"
      by (auto simp: processElement_pieces)
    with blank show False
      by (simp add: trim_empty_iff)
  qed
next
  assume none: "\<not> list_ex rendersWithoutText (children item)"
  have "set (piece c) \<subseteq> {0x000A}" if "c \<in> set (childNodes item)" for c
  proof (cases "isElement c")
    case True
    with that none have "\<not> rendersWithoutText c"
      by (auto simp: list_ex_iff children_def)
    with assms that show ?thesis by (rule piece_blank)
  next
    case False
    then have "\<not> rendersWithoutText c"
      by (cases c) (auto simp: rendersWithoutText_def lit_def)
    with assms that show ?thesis by (rule piece_blank)
  qed
  then have "set (processElement item) \<subseteq> {0x000A}"
    by (auto simp: processElement_pieces)
  then show "trim (processElement item) = []"
    by (auto simp: trim_empty_iff isWhiteSpace_def)
qed

lemma convert_list:
  assumes "t = lit ''ul'' \<or> t = lit ''ol''" and "trim (textContent (Element t a cs)) \<noteq> []"
  shows "convertElementToMarkdown (Element t a cs)
         = lit ''\<newline>'' @ join (lit ''\<newline>'') (listLines (Element t a cs)) @ lit ''\<newline>''"
  using assms
  by (auto simp: convertElementToMarkdown.simps [of "Element t a cs"]
      processListItems.simps lit_def Let_def listLines_def listItems_def
      itemPrefix_def)


text \<open>
  Claim C9, as amended. For a \<open>ul\<close> or \<open>ol\<close> whose trimmed text content is not empty,
  the rendering is a newline, the lines of the list joined by newlines, and a newline.
  There is one line for each direct \<open>li\<close> child, whether or not the child has text: the
  line is the bullet or number prefix followed by the trimmed rendering of the child's
  nodes. For an \<open>li\<close> whose trimmed text content is empty the line is the prefix alone
  exactly when no direct child element of the \<open>li\<close> is an \<open>hr\<close> or an \<open>img\<close> with a
  non-empty \<open>src\<close>.
\<close>

theorem C9_list_lines:
  assumes "t = lit ''ul'' \<or> t = lit ''ol''"
    and "trim (textContent (Element t a cs)) \<noteq> []"
  shows "convertElementToMarkdown (Element t a cs)
           = lit ''\<newline>'' @ join (lit ''\<newline>'') (listLines (Element t a cs)) @ lit ''\<newline>''
     \<and> length (listLines (Element t a cs)) = length (listItems (Element t a cs))
     \<and> (\<forall>i < length (listItems (Element t a cs)).
           listLines (Element t a cs) ! i
             = itemPrefix t i @ trim (processElement (listItems (Element t a cs) ! i)))
     \<and> (\<forall>i < length (listItems (Element t a cs)).
           trim (textContent (listItems (Element t a cs) ! i)) = [] \<longrightarrow>
             (listLines (Element t a cs) ! i = itemPrefix t i
                \<longleftrightarrow> \<not> list_ex rendersWithoutText (children (listItems (Element t a cs) ! i))))"
proof -
  let ?e = "Element t a cs"
  have line: "listLines ?e ! i = itemPrefix t i @ trim (processElement (listItems ?e ! i))"
    if "i < length (listItems ?e)" for i
    using that by (simp add: listLines_def nth_enumerate_eq)
  have blank: "listLines ?e ! i = itemPrefix t i
      \<longleftrightarrow> \<not> list_ex rendersWithoutText (children (listItems ?e ! i))"
    if "i < length (listItems ?e)" "trim (textContent (listItems ?e ! i)) = []" for i
    using blank_item_iff [OF that(2)] line [OF that(1)] by simp
  have "length (listLines ?e) = length (listItems ?e)"
    by (simp add: listLines_def)
  with convert_list [OF assms] line blank show ?thesis
    by blast
qed

text \<open>
  The claim at \<open><ul><li>a</li><li></li></ul>\<close>: two lines, the second one the bullet
  alone.
\<close>

theorem C9_list_lines_witness:
  "convertElementToMarkdown
     (Element (lit ''ul'') []
        [Element (lit ''li'') [] [Text (lit ''a'')], Element (lit ''li'') [] []])
   = lit ''\<newline>- a\<newline>- \<newline>''"
proof -
  let ?ul = "Element (lit ''ul'') []
        [Element (lit ''li'') [] [Text (lit ''a'')], Element (lit ''li'') [] []]"
  have h1: "lit ''ul'' = lit ''ul'' \<or> lit ''ul'' = lit ''ol''"
    by simp
  have h2: "trim (textContent ?ul) \<noteq> []"
    by (simp add: trim_def lit_def isWhiteSpace_def)
  have lines: "lit ''\<newline>'' @ join (lit ''\<newline>'') (listLines ?ul) @ lit ''\<newline>''
      = lit ''\<newline>- a\<newline>- \<newline>''"
    by code_simp
  from C9_list_lines [OF h1 h2] have
    "convertElementToMarkdown ?ul
       = lit ''\<newline>'' @ join (lit ''\<newline>'') (listLines ?ul) @ lit ''\<newline>''"
    by (rule conjunct1)
  then show ?thesis
    by (simp only: lines)
qed

text \<open>
  The claim as it was stated fails at \<open><ul><li>a</li><li><img src="s"></li></ul>\<close>: the
  second \<open>li\<close> has no text, and its line is the bullet followed by the image.
\<close>

theorem C9_empty_text_item_counterexample:
  "trim (textContent (Element (lit ''li'') [] [Element (lit ''img'') [(lit ''src'', lit ''s'')] []])) = []
   \<and> convertElementToMarkdown
       (Element (lit ''ul'') []
          [Element (lit ''li'') [] [Text (lit ''a'')],
           Element (lit ''li'') [] [Element (lit ''img'') [(lit ''src'', lit ''s'')] []]])
     = lit ''\<newline>- a\<newline>- ![](s)\<newline>''
   \<and> listLines
       (Element (lit ''ul'') []
          [Element (lit ''li'') [] [Text (lit ''a'')],
           Element (lit ''li'') [] [Element (lit ''img'') [(lit ''src'', lit ''s'')] []]]) ! 1
     \<noteq> itemPrefix (lit ''ul'') 1"
  by code_simp

subsection \<open>Tables\<close>

lemma querySelector_th_iff:
  "querySelector [lit ''th''] row \<noteq> None \<longleftrightarrow> spec_hasHeaderCell row"
proof -
  have "querySelector [lit ''th''] row \<noteq> None \<longleftrightarrow> querySelectorAll [lit ''th''] row \<noteq> []"
    by (simp add: querySelector_def split: list.splits)
  also have "\<dots> \<longleftrightarrow> (\<exists>e \<in> set (descendantElements (childNodes row)). tagName e = lit ''th'')"
    by (auto simp: querySelectorAll_def filter_empty_conv)
  also have "\<dots> \<longleftrightarrow> spec_hasHeaderCell row"
    by (auto simp: spec_hasHeaderCell_def spec_cells_def querySelectorAll_def list_ex_iff)
  finally show ?thesis .
qed

lemma foldl_enumerate_append:
  assumes "\<And>acc i x. k \<le> i \<Longrightarrow> f acc (i, x) = acc @ g x"
  shows "foldl f acc (enumerate k xs) = acc @ concat (map g xs)"
  using assms
proof (induction xs arbitrary: acc k)
  case Nil
  show ?case by simp
next
  case (Cons x xs)
  have "foldl f (f acc (k, x)) (enumerate (Suc k) xs) = f acc (k, x) @ concat (map g xs)"
    by (rule Cons.IH) (simp add: Cons.prems)
  then show ?case
    by (simp add: Cons.prems)
qed

lemma processTable_spec: "processTable table = spec_renderTable table"
proof (cases "querySelectorAll [lit ''tr''] table")
  case Nil
  then show ?thesis
    by (simp add: processTable.simps [of table] spec_renderTable_def)
next
  case (Cons first rest)
  define F :: "jsstring \<Rightarrow> nat \<times> node \<Rightarrow> jsstring" where "F = (\<lambda>result (rowIndex, row).
       if rowIndex = 0 \<and> querySelector [lit ''th''] row \<noteq> None
       then (result @ lit ''| ''
               @ join (lit '' | '')
                   (map (\<lambda>cell. replaceNewlines (trim (processElement cell)))
                      (querySelectorAll [lit ''td'', lit ''th''] row))
               @ lit '' |\<newline>'')
            @ lit ''| ''
            @ join (lit '' | '')
                (map (\<lambda>cell. lit ''---'') (querySelectorAll [lit ''td'', lit ''th''] row))
            @ lit '' |\<newline>''
       else result @ lit ''| ''
              @ join (lit '' | '')
                  (map (\<lambda>cell. replaceNewlines (trim (processElement cell)))
                     (querySelectorAll [lit ''td'', lit ''th''] row))
              @ lit '' |\<newline>'')"
  have unfolded: "processTable table =
      (if length (querySelectorAll [lit ''tr''] table) = 0 then []
       else foldl F (lit ''\<newline>'') (enumerate 0 (querySelectorAll [lit ''tr''] table))
              @ lit ''\<newline>'')"
    by (simp only: processTable.simps [of table] Let_def F_def)
  have later: "F acc (i, row) = acc @ spec_tableRow row" if "Suc 0 \<le> i" for acc i row
    using that by (simp add: F_def spec_tableRow_def spec_cells_def)
  have head: "F acc (0, row) =
      acc @ spec_tableRow row @ (if spec_hasHeaderCell row then spec_separatorRow row else [])"
    for acc row
    using querySelector_th_iff [of row]
    by (simp add: F_def spec_tableRow_def spec_separatorRow_def spec_cells_def
        map_replicate_const)
  have "foldl F (F (lit ''\<newline>'') (0, first)) (enumerate (Suc 0) rest)
      = F (lit ''\<newline>'') (0, first) @ concat (map spec_tableRow rest)"
    using later by (rule foldl_enumerate_append)
  then show ?thesis
    by (simp add: unfolded Cons head spec_renderTable_def)
qed

lemma newline_not_in_replaceNewlines: "0x000A \<notin> set (replaceNewlines s)"
  by (auto simp: replaceNewlines_def)

lemma notin_join:
  "c \<notin> set sep \<Longrightarrow> (\<And>x. x \<in> set xs \<Longrightarrow> c \<notin> set x) \<Longrightarrow> c \<notin> set (join sep xs)"
  by (induction sep xs rule: join.induct) auto

lemma count_tableRow: "count_list (spec_tableRow row) 0x000A = 1"
proof -
  have "0x000A \<notin> set (join (lit '' | '')
      (map (\<lambda>cell. replaceNewlines (trim (processElement cell))) (spec_cells row)))"
    by (rule notin_join) (auto simp: lit_def newline_not_in_replaceNewlines)
  then show ?thesis
    by (simp add: spec_tableRow_def lit_def count_list_0_iff)
qed

lemma count_separatorRow: "count_list (spec_separatorRow row) 0x000A = 1"
proof -
  have "0x000A \<notin> set (join (lit '' | '') (replicate (length (spec_cells row)) (lit ''---'')))"
    by (rule notin_join) (auto simp: lit_def)
  then show ?thesis
    by (simp add: spec_separatorRow_def lit_def count_list_0_iff)
qed

lemma count_concat_rows: "count_list (concat (map spec_tableRow rows)) 0x000A = length rows"
  by (induction rows) (simp_all add: count_tableRow)

lemma count_renderTable:
  "count_list (spec_renderTable table) 0x000A =
     (case querySelectorAll [lit ''tr''] table of
        [] \<Rightarrow> 0
      | first # rest \<Rightarrow> length (first # rest) + (if spec_hasHeaderCell first then 1 else 0) + 2)"
  by (simp add: spec_renderTable_def count_tableRow count_separatorRow count_concat_rows lit_def
      split: list.splits)

text \<open>
  Claim C5. \<open>processTable\<close> renders a table as the specification words it: one
  pipe-delimited row for each \<open>tr\<close> descendant, in document order; after the first row,
  and only there, a separator row with one \<open>---\<close> for each cell of that row, if and only
  if the first row has a \<open>th\<close> cell; the empty string for a table without a \<open>tr\<close>.
  Every row is one line: the output has one newline for each \<open>tr\<close>, one more for the
  separator row, and the two that enclose the table.
\<close>

theorem C5_table_rendering:
  "processTable table = spec_renderTable table
   \<and> count_list (processTable table) 0x000A =
       (case querySelectorAll [lit ''tr''] table of
          [] \<Rightarrow> 0
        | first # rest \<Rightarrow>
            length (first # rest) + (if spec_hasHeaderCell first then 1 else 0) + 2)"
  using processTable_spec [of table] count_renderTable [of table] by simp

text \<open>
  The claim at the table of the specification, a header row \<open>A\<close>, \<open>B\<close> and a data row
  \<open>1\<close>, \<open>2\<close>: three pipe rows, the second one the separator.
\<close>

theorem C5_table_rendering_witness:
  "processTable
     (Element (lit ''table'') []
        [Element (lit ''tr'') []
           [Element (lit ''th'') [] [Text (lit ''A'')], Element (lit ''th'') [] [Text (lit ''B'')]],
         Element (lit ''tr'') []
           [Element (lit ''td'') [] [Text (lit ''1'')], Element (lit ''td'') [] [Text (lit ''2'')]]])
   = lit ''\<newline>| A | B |\<newline>| --- | --- |\<newline>| 1 | 2 |\<newline>\<newline>''"
proof -
  let ?table = "Element (lit ''table'') []
        [Element (lit ''tr'') []
           [Element (lit ''th'') [] [Text (lit ''A'')], Element (lit ''th'') [] [Text (lit ''B'')]],
         Element (lit ''tr'') []
           [Element (lit ''td'') [] [Text (lit ''1'')], Element (lit ''td'') [] [Text (lit ''2'')]]]"
  have "spec_renderTable ?table
      = lit ''\<newline>| A | B |\<newline>| --- | --- |\<newline>| 1 | 2 |\<newline>\<newline>''"
    by code_simp
  with C5_table_rendering [of ?table] show ?thesis
    by simp
qed

subsection \<open>The two copies of the emitter\<close>

lemma emitter_part001_eq:
  "processElement_part001 n = processElement n
   \<and> convertElementToMarkdown_part001 n = convertElementToMarkdown n
   \<and> processListItems_part001 n p b = processListItems n p b
   \<and> processTable_part001 n = processTable n"
proof (induction n arbitrary: p b rule: measure_induct_rule [of size])
  case (less n)
  have IH1: "processElement_part001 m = processElement m" if "size m < size n" for m
    using less [OF that] by blast
  have IH2: "convertElementToMarkdown_part001 m = convertElementToMarkdown m"
    if "size m < size n" for m
    using less [OF that] by blast
  have pe: "processElement_part001 n = processElement n"
    unfolding processElement_part001.simps [of n] processElement.simps [of n]
    by (intro arg_cong [where f = concat] map_cong refl)
      (auto split: node.splits simp: IH2 dest: size_childNodes)
  have pl: "processListItems_part001 n p b = processListItems n p b" for p b
    unfolding processListItems_part001.simps [of n] processListItems.simps [of n] Let_def
    by (intro arg_cong [where f = "join (lit ''\<newline>'')"] map_cong refl)
      (auto simp: in_set_enumerate_eq IH1 size_list_item)
  have cell: "processElement_part001 c = processElement c"
    if "row \<in> set (querySelectorAll s1 n)" "c \<in> set (querySelectorAll s2 row)" for row c s1 s2
  proof -
    have "size c < size row" "size row < size n"
      using that by (auto dest: size_querySelectorAll)
    then show ?thesis by (intro IH1) simp
  qed
  have rowmap:
    "map (\<lambda>cell. replaceNewlines (trim (processElement_part001 cell)))
       (querySelectorAll s2 (querySelectorAll s1 n ! i))
     = map (\<lambda>cell. replaceNewlines (trim (processElement cell)))
         (querySelectorAll s2 (querySelectorAll s1 n ! i))"
    if "i < length (querySelectorAll s1 n)" for i s1 s2
    using that by (intro map_cong refl) (simp add: cell [OF nth_mem])
  have pt: "processTable_part001 n = processTable n"
    unfolding processTable_part001.simps [of n] processTable.simps [of n] Let_def
    by (intro if_cong arg_cong2 [where f = append] foldl_cong refl)
      (auto simp: in_set_enumerate_eq rowmap)
  have ce: "convertElementToMarkdown_part001 n = convertElementToMarkdown n"
    unfolding convertElementToMarkdown_part001.simps [of n] convertElementToMarkdown.simps [of n]
    by (simp only: pe pl pt)
  from pe pl pt ce show ?case by simp
qed

text \<open>
  Claim C10. The emitter of src/unnamed/part_001 and the emitter of src/js/converter.js
  give the same Markdown string on every node: \<open>processElement\<close> and
  \<open>convertElementToMarkdown\<close>, and their helpers \<open>processListItems\<close> and \<open>processTable\<close>.
\<close>

theorem C10_emitter_copies_equal:
  "processElement_part001 n = processElement n
   \<and> convertElementToMarkdown_part001 n = convertElementToMarkdown n
   \<and> processListItems_part001 n p b = processListItems n p b
   \<and> processTable_part001 n = processTable n"
  by (rule emitter_part001_eq)

text \<open>The claim at \<open><body><p>Hello <b>world</b></p></body>\<close>.\<close>

theorem C10_emitter_copies_equal_witness:
  "processElement_part001
     (Element (lit ''body'') []
        [Element (lit ''p'') [] [Text (lit ''Hello ''), Element (lit ''b'') [] [Text (lit ''world'')]]])
   = lit ''\<newline>Hello **world**\<newline>\<newline>''
   \<and> processElement
     (Element (lit ''body'') []
        [Element (lit ''p'') [] [Text (lit ''Hello ''), Element (lit ''b'') [] [Text (lit ''world'')]]])
   = lit ''\<newline>Hello **world**\<newline>\<newline>''"
proof -
  let ?body = "Element (lit ''body'') []
        [Element (lit ''p'') [] [Text (lit ''Hello ''), Element (lit ''b'') [] [Text (lit ''world'')]]]"
  have "processElement ?body = lit ''\<newline>Hello **world**\<newline>\<newline>''"
    by code_simp
  with C10_emitter_copies_equal [of ?body] show ?thesis
    by simp
qed


section \<open>Properties of the Range Extractor and the Orchestrator\<close>

subsection \<open>Document order\<close>

lemma elementsAt_shape:
  "e \<in> set (elementsAt p i ns) \<Longrightarrow> \<exists>j r. fst e = p @ j # r \<and> i \<le> j"
proof (induction p i ns rule: elementsAt.induct)
  case (2 p i t a cs ns)
  from "2.prems" consider "e = (p @ [i], Element t a cs)"
    | "e \<in> set (elementsAt (p @ [i]) 0 cs)" | "e \<in> set (elementsAt p (Suc i) ns)"
    by auto
  then show ?case
  proof cases
    case 1
    then show ?thesis by simp
  next
    case 2
    from "2.IH"(1) [OF this] show ?thesis by auto
  next
    case 3
    from "2.IH"(2) [OF this] show ?thesis by (auto intro: Suc_leD)
  qed
qed auto

lemma elementsAt_isElement: "e \<in> set (elementsAt p i ns) \<Longrightarrow> isElement (snd e)"
  by (induction p i ns rule: elementsAt.induct) auto

lemma elementsAt_distinct: "distinct (map fst (elementsAt p i ns))"
proof (induction p i ns rule: elementsAt.induct)
  case (2 p i t a cs ns)
  have d: "\<exists>r. q = p @ i # r \<and> r \<noteq> []" if "q \<in> fst ` set (elementsAt (p @ [i]) 0 cs)" for q
    using that elementsAt_shape [of _ "p @ [i]" 0 cs] by fastforce
  have l: "\<exists>j r. q = p @ j # r \<and> i < j" if "q \<in> fst ` set (elementsAt p (Suc i) ns)" for q
    using that elementsAt_shape [of _ p "Suc i" ns] by fastforce
  have "p @ [i] \<notin> fst ` set (elementsAt (p @ [i]) 0 cs)"
    using d by fastforce
  moreover have "p @ [i] \<notin> fst ` set (elementsAt p (Suc i) ns)"
    using l by fastforce
  moreover have "fst ` set (elementsAt (p @ [i]) 0 cs) \<inter> fst ` set (elementsAt p (Suc i) ns) = {}"
  proof (rule ccontr)
    assume "\<not> ?thesis"
    then obtain q where "q \<in> fst ` set (elementsAt (p @ [i]) 0 cs)"
      "q \<in> fst ` set (elementsAt p (Suc i) ns)" by blast
    with d l show False by fastforce
  qed
  ultimately show ?case
    using "2.IH" by simp
qed auto

lemma findStart_find: "findStart xs = find (\<lambda>e. containsStart (snd e)) xs"
  by (induction xs) auto

lemma findStart_append:
  "findStart (xs @ ys) = (case findStart xs of Some s \<Rightarrow> Some s | None \<Rightarrow> findStart ys)"
  by (induction xs) auto

lemma findStart_None: "findStart xs = None \<longleftrightarrow> (\<forall>e \<in> set xs. \<not> containsStart (snd e))"
  by (induction xs) auto

lemma findStart_mem: "findStart xs = Some s \<Longrightarrow> s \<in> set xs \<and> containsStart (snd s)"
  by (induction xs) (auto split: if_splits)

lemma findStart_outermost:
  "findStart (elementsAt p i ns) = Some s \<Longrightarrow> e \<in> set (elementsAt p i ns) \<Longrightarrow>
     containsStart (snd e) \<Longrightarrow> \<not> strict_prefix (fst e) (fst s)"
proof (induction p i ns rule: elementsAt.induct)
  case (2 p i t a cs ns)
  let ?h = "(p @ [i], Element t a cs)"
  let ?D = "elementsAt (p @ [i]) 0 cs"
  let ?L = "elementsAt p (Suc i) ns"
  have d: "\<exists>r. fst x = p @ i # r \<and> r \<noteq> []" if "x \<in> set ?D" for x
    using elementsAt_shape [OF that] by auto
  have l: "\<exists>j r. fst x = p @ j # r \<and> i < j" if "x \<in> set ?L" for x
    using elementsAt_shape [OF that] by auto
  from "2.prems"(2) have e: "e = ?h \<or> e \<in> set ?D \<or> e \<in> set ?L" by auto
  show ?case
  proof (cases "containsStart (Element t a cs)")
    case True
    with "2.prems"(1) have "fst s = p @ [i]" by auto
    moreover have "length (fst e) \<ge> length (p @ [i])"
      using elementsAt_shape [OF "2.prems"(2)] by auto
    ultimately show ?thesis
      by (auto dest: prefix_length_less)
  next
    case False
    show ?thesis
    proof (cases "findStart ?D")
      case (Some s')
      with False "2.prems"(1) have s: "findStart ?D = Some s" 
        by (simp add: findStart_append)
      from findStart_mem [OF s] d obtain r where r: "fst s = p @ i # r" by blast
      from e show ?thesis
      proof (elim disjE)
        assume "e = ?h" with False "2.prems"(3) show ?thesis by simp
      next
        assume "e \<in> set ?D"
        from "2.IH"(1) [OF s this "2.prems"(3)] show ?thesis .
      next
        assume "e \<in> set ?L"
        from l [OF this] obtain j r' where "fst e = p @ j # r'" "i < j" by blast
        with r show ?thesis by (auto simp: strict_prefix_def prefix_def append_eq_append_conv2 Cons_eq_append_conv)
      qed
    next
      case None
      with False "2.prems"(1) have s: "findStart ?L = Some s"
        by (simp add: findStart_append)
      from findStart_mem [OF s] l obtain j r where r: "fst s = p @ j # r" "i < j" by blast
      from e show ?thesis
      proof (elim disjE)
        assume "e = ?h" with False "2.prems"(3) show ?thesis by simp
      next
        assume "e \<in> set ?D"
        with None "2.prems"(3) show ?thesis by (auto simp: findStart_None)
      next
        assume "e \<in> set ?L"
        from "2.IH"(2) [OF s this "2.prems"(3)] show ?thesis .
      qed
    qed
  qed
qed auto



lemma list_ex_take: "i \<le> length xs \<Longrightarrow> list_ex P (take i xs) \<longleftrightarrow> (\<exists>j<i. P (xs ! j))"
proof -
  assume le: "i \<le> length xs"
  have "list_ex P (take i xs) \<longleftrightarrow> (\<exists>j < length (take i xs). P (take i xs ! j))"
    by (simp add: list_ex_length)
  also have "\<dots> \<longleftrightarrow> (\<exists>j<i. P (xs ! j))"
    using le by (auto simp: min_absorb2)
  finally show ?thesis .
qed

lemma findStart_iff:
  "findStart els = Some s \<longleftrightarrow> (\<exists>i. isStartIndex els i \<and> s = els ! i)"
proof -
  have "isStartIndex els i \<longleftrightarrow>
      i < length els \<and> containsStart (snd (els ! i)) \<and> (\<forall>j<i. \<not> containsStart (snd (els ! j)))"
    for i
    by (cases "i < length els") (auto simp: isStartIndex_def list_ex_take)
  then show ?thesis
    by (auto simp: findStart_find find_Some_iff)
qed

subsection \<open>The end element and the result of the extraction\<close>

lemma findEnd_True:
  "sp \<notin> fst ` set xs \<Longrightarrow> findEnd sp True xs = find (\<lambda>e. containsEnd (snd e)) xs"
  by (induction xs) auto

lemma findEnd_after:
  "distinct (map fst xs) \<Longrightarrow> i < length xs \<Longrightarrow>
     findEnd (fst (xs ! i)) False xs = find (\<lambda>e. containsEnd (snd e)) (drop (Suc i) xs)"
proof (induction xs arbitrary: i)
  case Nil
  then show ?case by simp
next
  case (Cons x xs)
  show ?case
  proof (cases i)
    case 0
    with Cons.prems show ?thesis
      by (simp add: findEnd_True)
  next
    case (Suc k)
    with Cons.prems have "fst x \<noteq> fst (xs ! k)"
      by (metis Suc_less_eq distinct.simps(2) length_Cons list.simps(9) nth_map nth_mem length_map)
    with Cons Suc show ?thesis
      by simp
  qed
qed

lemma findEnd_None_iff:
  assumes "distinct (map fst els)" "isStartIndex els i"
  shows "findEnd (fst (els ! i)) False els = None \<longleftrightarrow> noEndAfter els i"
proof -
  from assms(2) have "i < length els" by (simp add: isStartIndex_def)
  from findEnd_after [OF assms(1) this] show ?thesis
    by (auto simp: noEndAfter_def find_None_iff list_ex_iff)
qed

lemma containerOrNull_Some:
  "isElement n \<Longrightarrow> containerOrNull (n # rest) = Some (Element (lit ''div'') [] (n # rest))"
  by (simp add: containerOrNull_def children_def)

lemma allElements_isElement: "e \<in> set (allElements doc) \<Longrightarrow> isElement (snd e)"
  by (auto simp: allElements_def dest: elementsAt_isElement)

lemma extractElementsRange_Some:
  assumes "findStart (allElements doc) = Some s"
  shows "extractElementsRange doc s e =
     Some (Element (lit ''div'') []
       (snd s # collectRange doc (fst e) (getNextElement doc (fst s))))"
proof -
  from findStart_mem [OF assms] have "isElement (snd s)"
    by (auto dest: allElements_isElement)
  then show ?thesis
    by (simp add: extractElementsRange_def cloneNode_def containerOrNull_Some)
qed

lemma extractSpecificSection_None_iff:
  "extractSpecificSection doc = None \<longleftrightarrow>
     \<not> list_ex (\<lambda>e. containsStart (snd e)) (allElements doc)
     \<or> (\<exists>i. isStartIndex (allElements doc) i \<and> noEndAfter (allElements doc) i)"
proof (cases "findStart (allElements doc)")
  case None
  then have "\<not> list_ex (\<lambda>e. containsStart (snd e)) (allElements doc)"
    by (simp add: findStart_None list_ex_iff)
  with None show ?thesis
    by (simp add: extractSpecificSection_def)
next
  case (Some s)
  then obtain i where i: "isStartIndex (allElements doc) i" "s = allElements doc ! i"
    by (auto simp: findStart_iff)
  have d: "distinct (map fst (allElements doc))"
    by (simp add: allElements_def elementsAt_distinct)
  have uniq: "j = i" if "isStartIndex (allElements doc) j" for j
  proof -
    from that Some have "findStart (allElements doc) = Some (allElements doc ! j)"
      by (auto simp: findStart_iff)
    with Some i(2) have "allElements doc ! j = allElements doc ! i" by simp
    moreover have "j < length (allElements doc)" "i < length (allElements doc)"
      using that i(1) by (simp_all add: isStartIndex_def)
    ultimately show ?thesis
      using d by (metis distinct_conv_nth length_map nth_map)
  qed
  have ex: "list_ex (\<lambda>e. containsStart (snd e)) (allElements doc)"
    using findStart_mem [OF Some] by (auto simp: list_ex_iff)
  have "extractSpecificSection doc = None \<longleftrightarrow> findEnd (fst s) False (allElements doc) = None"
    using extractElementsRange_Some [OF Some]
    by (auto simp: extractSpecificSection_def Some split: option.splits)
  also have "\<dots> \<longleftrightarrow> noEndAfter (allElements doc) i"
    using findEnd_None_iff [OF d i(1)] i(2) by simp
  also have "\<dots> \<longleftrightarrow> (\<exists>j. isStartIndex (allElements doc) j \<and> noEndAfter (allElements doc) j)"
    using i(1) uniq by blast
  finally show ?thesis
    using ex by simp
qed

lemma convert_warning:
  assumes "parseFromString html = Some doc"
    and "extractSpecificSection (removeUnwantedElements doc) = None"
  shows "convertHtmlToMarkdown parseFromString html = Inr warningNotice"
  using assms by (simp add: convertHtmlToMarkdown_def renderExtracted_def)



text \<open>
  Claim C1. When some element of the document has the start marker in its text content,
  the start element of \<open>extractSpecificSection\<close> is the first such element of
  \<open>allElements\<close>, the list of the elements in document order, each element before its
  descendants. No element that has the marker is a proper ancestor of it: of an ancestor
  and a descendant that both have the marker, the ancestor is selected. It is from this
  element that the extraction goes on: the end element is searched after it, the range is
  extracted from it, and every container that \<open>extractSpecificSection\<close> returns has
  the clone of this element as its first child.
\<close>

theorem C1_start_element_of_extraction:
  assumes "list_ex (\<lambda>e. containsStart (snd e)) (allElements doc)"
  shows "\<exists>i. isStartIndex (allElements doc) i
     \<and> findStart (allElements doc) = Some (allElements doc ! i)
     \<and> (\<forall>e \<in> set (allElements doc).
           containsStart (snd e) \<longrightarrow> \<not> strict_prefix (fst e) (fst (allElements doc ! i)))
     \<and> extractSpecificSection doc
         = (case findEnd (fst (allElements doc ! i)) False (allElements doc) of
              None \<Rightarrow> None
            | Some endElement \<Rightarrow> extractElementsRange doc (allElements doc ! i) endElement)
     \<and> (\<forall>container. extractSpecificSection doc = Some container \<longrightarrow>
           (\<exists>rest. container
              = Element (lit ''div'') [] (cloneNode (snd (allElements doc ! i)) # rest)))"
proof -
  from assms have "findStart (allElements doc) \<noteq> None"
    by (simp add: findStart_None list_ex_iff)
  then obtain s where s: "findStart (allElements doc) = Some s"
    by blast
  then obtain i where i: "isStartIndex (allElements doc) i" "s = allElements doc ! i"
    by (auto simp: findStart_iff)
  have anc: "\<not> strict_prefix (fst e) (fst s)"
    if "e \<in> set (allElements doc)" "containsStart (snd e)" for e
    using s that unfolding allElements_def by (rule findStart_outermost)
  have sect: "extractSpecificSection doc
      = (case findEnd (fst s) False (allElements doc) of
           None \<Rightarrow> None
         | Some endElement \<Rightarrow> extractElementsRange doc s endElement)"
    by (simp add: extractSpecificSection_def s)
  have first: "\<exists>rest. container = Element (lit ''div'') [] (cloneNode (snd s) # rest)"
    if "extractSpecificSection doc = Some container" for container
    using that extractElementsRange_Some [OF s]
    by (auto simp: sect cloneNode_def split: option.splits)
  from s i anc sect first show ?thesis
    by blast
qed

text \<open>
  The claim at \<open>pageBoth\<close>: the marker is in a \<open>p\<close> inside a \<open>div\<close> of the body; the
  start element is the outermost element that has it, the \<open>html\<close> element at position
  0 of the document, and the extracted container begins with it.
\<close>

theorem C1_start_element_of_extraction_witness:
  "list_ex (\<lambda>e. containsStart (snd e)) (allElements pageBoth)
   \<and> (\<exists>i. isStartIndex (allElements pageBoth) i
          \<and> findStart (allElements pageBoth) = Some (allElements pageBoth ! i)
          \<and> fst (allElements pageBoth ! i) = [0]
          \<and> (\<exists>rest. extractSpecificSection pageBoth
                = Some (Element (lit ''div'') [] (snd (allElements pageBoth ! i) # rest))))"
proof -
  have h: "list_ex (\<lambda>e. containsStart (snd e)) (allElements pageBoth)"
    by code_simp
  have first: "map_option fst (findStart (allElements pageBoth)) = Some [0]"
    by code_simp
  have some: "extractSpecificSection pageBoth \<noteq> None"
    by code_simp
  from C1_start_element_of_extraction [OF h] obtain i where i:
    "isStartIndex (allElements pageBoth) i"
    "findStart (allElements pageBoth) = Some (allElements pageBoth ! i)"
    "\<forall>container. extractSpecificSection pageBoth = Some container \<longrightarrow>
       (\<exists>rest. container
          = Element (lit ''div'') [] (cloneNode (snd (allElements pageBoth ! i)) # rest))"
    by blast
  from some i(3) have "\<exists>rest. extractSpecificSection pageBoth
      = Some (Element (lit ''div'') [] (snd (allElements pageBoth ! i) # rest))"
    by (auto simp: cloneNode_def)
  with first h i(1,2) show ?thesis
    by auto
qed

text \<open>
  Claim C2. When the sanitized document has an element with the start marker and no
  element after the start element in \<open>allElements\<close> has one of the end markers,
  \<open>convertHtmlToMarkdown\<close> returns the warning notice as its value: it does not fail, and
  it returns no Markdown of a part of the page.
\<close>

theorem C2_no_end_marker_warning:
  assumes "parseFromString html = Some doc"
    and "isStartIndex (allElements (removeUnwantedElements doc)) i"
    and "noEndAfter (allElements (removeUnwantedElements doc)) i"
  shows "convertHtmlToMarkdown parseFromString html = Inr warningNotice"
proof -
  have "extractSpecificSection (removeUnwantedElements doc) = None"
    using assms(2,3) by (auto simp: extractSpecificSection_None_iff)
  with assms(1) show ?thesis
    by (rule convert_warning)
qed

text \<open>The claim at \<open>pageNoEnd\<close>, where the start element is at position 0.\<close>

theorem C2_no_end_marker_warning_witness:
  "isStartIndex (allElements (removeUnwantedElements pageNoEnd)) 0
   \<and> noEndAfter (allElements (removeUnwantedElements pageNoEnd)) 0
   \<and> convertHtmlToMarkdown (\<lambda>html. Some pageNoEnd) [] = Inr warningNotice"
proof -
  have h1: "(\<lambda>html :: jsstring. Some pageNoEnd) [] = Some pageNoEnd"
    by simp
  have h2: "isStartIndex (allElements (removeUnwantedElements pageNoEnd)) 0"
    by code_simp
  have h3: "noEndAfter (allElements (removeUnwantedElements pageNoEnd)) 0"
    by code_simp
  from C2_no_end_marker_warning [OF h1 h2 h3] h2 h3 show ?thesis
    by simp
qed

text \<open>
  Claim C3, as amended. When the start element and the end element are found, the
  container that \<open>extractElementsRange\<close> returns has the clone of the start element as its
  first child, so the branch that returns null for an empty container is never taken.
  \<open>extractSpecificSection\<close> returns null exactly when no element has the start marker or
  no element after the start element has an end marker; \<open>convertHtmlToMarkdown\<close> then
  returns the warning notice, and otherwise the trimmed Markdown of the container.
\<close>

theorem C3_null_exactly_when_not_found:
  assumes "parseFromString html = Some doc0"
    and "doc = removeUnwantedElements doc0"
    and "els = allElements doc"
  shows "(\<forall>s e. findStart els = Some s \<and> findEnd (fst s) False els = Some e \<longrightarrow>
            (\<exists>rest. extractElementsRange doc s e
                      = Some (Element (lit ''div'') [] (cloneNode (snd s) # rest))))
     \<and> (extractSpecificSection doc = None \<longleftrightarrow>
          \<not> list_ex (\<lambda>e. containsStart (snd e)) els
          \<or> (\<exists>i. isStartIndex els i \<and> noEndAfter els i))
     \<and> (extractSpecificSection doc = None \<longrightarrow>
          convertHtmlToMarkdown parseFromString html = Inr warningNotice)
     \<and> (\<forall>container. extractSpecificSection doc = Some container \<longrightarrow>
          convertHtmlToMarkdown parseFromString html
            = Inr (trim (processElement_part001 container)))"
proof -
  have "\<exists>rest. extractElementsRange doc s e
                  = Some (Element (lit ''div'') [] (cloneNode (snd s) # rest))"
    if "findStart els = Some s" for s e
    using that extractElementsRange_Some [of doc s e] by (simp add: assms(3) cloneNode_def)
  moreover have "extractSpecificSection doc = None \<longleftrightarrow>
          \<not> list_ex (\<lambda>e. containsStart (snd e)) els
          \<or> (\<exists>i. isStartIndex els i \<and> noEndAfter els i)"
    unfolding assms(3) by (rule extractSpecificSection_None_iff)
  moreover have "convertHtmlToMarkdown parseFromString html = Inr warningNotice"
    if "extractSpecificSection doc = None"
    using assms(1) that unfolding assms(2) by (rule convert_warning)
  moreover have "convertHtmlToMarkdown parseFromString html
            = Inr (trim (processElement_part001 container))"
    if "extractSpecificSection doc = Some container" for container
    using assms(1) that
    by (simp add: convertHtmlToMarkdown_def renderExtracted_def assms(2))
  ultimately show ?thesis
    by blast
qed

text \<open>
  The claim at \<open>pageNoEnd\<close>, where the extraction returns null and the conversion the
  warning notice, and at \<open>pageBoth\<close>, where the extraction returns a container.
\<close>

theorem C3_null_exactly_when_not_found_witness:
  "extractSpecificSection (removeUnwantedElements pageNoEnd) = None
   \<and> convertHtmlToMarkdown (\<lambda>html. Some pageNoEnd) [] = Inr warningNotice
   \<and> extractSpecificSection (removeUnwantedElements pageBoth) \<noteq> None"
proof -
  have p1: "(\<lambda>html :: jsstring. Some pageNoEnd) [] = Some pageNoEnd"
    by simp
  have p2: "(\<lambda>html :: jsstring. Some pageBoth) [] = Some pageBoth"
    by simp
  have h: "isStartIndex (allElements (removeUnwantedElements pageNoEnd)) 0
      \<and> noEndAfter (allElements (removeUnwantedElements pageNoEnd)) 0"
    by code_simp
  have both: "list_ex (\<lambda>e. containsStart (snd e)) (allElements (removeUnwantedElements pageBoth))
      \<and> extractSpecificSection (removeUnwantedElements pageBoth) \<noteq> None"
    by code_simp
  from C3_null_exactly_when_not_found [OF p1 refl refl] h
  have "extractSpecificSection (removeUnwantedElements pageNoEnd) = None"
    "convertHtmlToMarkdown (\<lambda>html. Some pageNoEnd) [] = Inr warningNotice"
    by blast+
  with both show ?thesis
    by simp
qed

text \<open>
  The claim as it was stated, with the returned string in place of the branch, fails at
  \<open>pageNotice\<close>: the start element (\<open>html\<close>) and the end element (\<open>body\<close>) are both
  found, and the Markdown of the extracted container is the very string of the warning.
\<close>

theorem C3_notice_text_counterexample:
  "map_option fst (findStart (allElements (removeUnwantedElements pageNotice))) = Some [0]
   \<and> map_option fst (findEnd [0] False (allElements (removeUnwantedElements pageNotice)))
       = Some [0, 1]
   \<and> extractSpecificSection (removeUnwantedElements pageNotice) \<noteq> None
   \<and> convertHtmlToMarkdown (\<lambda>html. Some pageNotice) [] = Inr warningNotice"
  by code_simp




subsection \<open>The emitter on a store\<close>

lemma read_st_Some: "nodeAt store ref = Some n \<Longrightarrow> read_st ref g store = Some (g n, store)"
  by (simp add: read_st_def)

lemma traverse_st_rel:
  "list_all2 (\<lambda>x y. f x store = Some (y, store)) xs ys \<Longrightarrow>
     traverse_st f xs store = Some (ys, store)"
  by (induction xs ys rule: list_all2_induct) (simp_all add: bind_st_def return_st_def)

lemma foldl_st_rel:
  assumes "list_all2 R xs ys"
    and "\<And>acc x y. R x y \<Longrightarrow> f acc x store = Some (g acc y, store)"
  shows "foldl_st f acc xs store = Some (foldl g acc ys, store)"
  using assms
  by (induction xs ys arbitrary: acc rule: list_all2_induct)
    (simp_all add: bind_st_def return_st_def)

lemma nodeAt_append: "nodeAt store ref = Some n \<Longrightarrow> nodeAt store (ref @ p) = nodeAt n p"
  by (induction store ref rule: nodeAt.induct) (auto split: if_splits)

lemma nodeAt_child:
  "nodeAt store ref = Some n \<Longrightarrow> i < length (childNodes n) \<Longrightarrow>
     nodeAt store (ref @ [i]) = Some (childNodes n ! i)"
  by (simp add: nodeAt_append)

lemma refers_childNodes:
  assumes "nodeAt store ref = Some n"
  shows "refers store (map (\<lambda>i. ref @ [i]) [0 ..< length (childNodes n)]) (childNodes n)"
  unfolding refers_def list_all2_conv_all_nth
  using nodeAt_child [OF assms] by simp

lemma filter_nth_upt: "map (\<lambda>i. xs ! i) (filter (\<lambda>i. P (xs ! i)) [0 ..< length xs]) = filter P xs"
proof (induction xs rule: rev_induct)
  case Nil
  show ?case by simp
next
  case (snoc x xs)
  have "filter (\<lambda>i. P ((xs @ [x]) ! i)) [0 ..< length xs] = filter (\<lambda>i. P (xs ! i)) [0 ..< length xs]"
    by (intro filter_cong refl) (simp add: nth_append)
  moreover have "map (\<lambda>i. (xs @ [x]) ! i) (filter (\<lambda>i. P (xs ! i)) [0 ..< length xs])
      = map (\<lambda>i. xs ! i) (filter (\<lambda>i. P (xs ! i)) [0 ..< length xs])"
    by (intro map_cong refl) (simp add: nth_append)
  ultimately show ?case
    using snoc by (simp add: nth_append)
qed

lemma refers_children:
  assumes "nodeAt store ref = Some n"
  shows "refers store
     (map (\<lambda>i. ref @ [i]) (filter (\<lambda>i. isElement (childNodes n ! i)) [0 ..< length (childNodes n)]))
     (children n)"
proof -
  let ?is = "filter (\<lambda>i. isElement (childNodes n ! i)) [0 ..< length (childNodes n)]"
  have "children n = map (\<lambda>i. childNodes n ! i) ?is"
    by (simp add: children_def filter_nth_upt)
  moreover have "list_all2 (\<lambda>q e. nodeAt store q = Some e)
      (map (\<lambda>i. ref @ [i]) ?is) (map (\<lambda>i. childNodes n ! i) ?is)"
    using nodeAt_child [OF assms] by (simp add: list_all2_map1 list_all2_map2 list_all2_same)
  ultimately show ?thesis
    by (simp add: refers_def)
qed

lemma elementsAt_snd: "map snd (elementsAt ref i ns) = descendantElements ns"
  by (induction ref i ns rule: elementsAt.induct) auto

lemma drop_Suc_of_Cons: "drop i xs = y # ys \<Longrightarrow> drop (Suc i) xs = ys"
  by (metis drop_Suc tl_drop list.sel(3))

lemma elementsAt_nodeAt:
  "nodeAt store ref = Some n \<Longrightarrow> drop i (childNodes n) = ns \<Longrightarrow>
     (q, e) \<in> set (elementsAt ref i ns) \<Longrightarrow> nodeAt store q = Some e"
proof (induction ref i ns arbitrary: n rule: elementsAt.induct)
  case (1 p i)
  then show ?case by simp
next
  case (2 p i t a cs ns)
  from "2.prems"(2) have i1: "i < length (childNodes n)"
    by (metis drop_all list.distinct(1) not_le)
  from "2.prems"(2) have i2: "childNodes n ! i = Element t a cs"
    by (rule nth_via_drop)
  from "2.prems"(2) have rest: "drop (Suc i) (childNodes n) = ns"
    by (rule drop_Suc_of_Cons)
  note i = i1 i2
  have here: "nodeAt store (p @ [i]) = Some (Element t a cs)"
    using nodeAt_child [OF "2.prems"(1) i(1)] i(2) by simp
  from "2.prems"(3) consider "(q, e) = (p @ [i], Element t a cs)"
    | "(q, e) \<in> set (elementsAt (p @ [i]) 0 cs)" | "(q, e) \<in> set (elementsAt p (Suc i) ns)"
    by auto
  then show ?case
  proof cases
    case 1
    with here show ?thesis by simp
  next
    case 2
    show ?thesis by (rule "2.IH"(1) [OF here _ 2]) simp
  next
    case 3
    show ?thesis by (rule "2.IH"(2) [OF "2.prems"(1) rest 3])
  qed
qed (auto dest: drop_Suc_of_Cons)

lemma refers_querySelectorAll:
  assumes "nodeAt store ref = Some n"
  shows "refers store
     (map fst (filter (\<lambda>(q, e). tagName e \<in> set sel) (elementsAt ref 0 (childNodes n))))
     (querySelectorAll sel n)"
proof -
  let ?ps = "filter (\<lambda>(q, e). tagName e \<in> set sel) (elementsAt ref 0 (childNodes n))"
  have "map snd ?ps = filter (\<lambda>e. tagName e \<in> set sel) (map snd (elementsAt ref 0 (childNodes n)))"
    by (simp add: filter_map comp_def case_prod_unfold)
  then have snd: "map snd ?ps = querySelectorAll sel n"
    by (simp add: querySelectorAll_def elementsAt_snd)
  have "list_all2 (\<lambda>q e. nodeAt store q = Some e) (map fst ?ps) (map snd ?ps)"
    using elementsAt_nodeAt [OF assms, of 0]
    by (auto simp: list_all2_map1 list_all2_map2 list_all2_same)
  with snd show ?thesis
    by (simp add: refers_def)
qed


lemma traverse_refers:
  assumes "refers store refs nodes"
    and "\<And>q e. e \<in> set nodes \<Longrightarrow> nodeAt store q = Some e \<Longrightarrow> f q store = Some (g e, store)"
  shows "traverse_st f refs store = Some (map g nodes, store)"
  using assms unfolding refers_def
proof (induction refs nodes rule: list_all2_induct)
  case Nil
  show ?case by (simp add: return_st_def)
next
  case (Cons q qs e es)
  have "f q store = Some (g e, store)"
    using Cons.hyps(1) by (intro Cons.prems) simp
  moreover have "traverse_st f qs store = Some (map g es, store)"
    by (rule Cons.IH) (simp add: Cons.prems)
  ultimately show ?case
    by (simp add: bind_st_def return_st_def)
qed

lemma traverse_refers_enum:
  assumes "refers store refs nodes"
    and "\<And>i q e. e \<in> set nodes \<Longrightarrow> nodeAt store q = Some e \<Longrightarrow>
           f (i, q) store = Some (g (i, e), store)"
  shows "traverse_st f (enumerate k refs) store = Some (map g (enumerate k nodes), store)"
  using assms unfolding refers_def
proof (induction refs nodes arbitrary: k rule: list_all2_induct)
  case Nil
  show ?case by (simp add: return_st_def)
next
  case (Cons q qs e es)
  have "f (k, q) store = Some (g (k, e), store)"
    using Cons.hyps(1) by (intro Cons.prems) simp
  moreover have "traverse_st f (enumerate (Suc k) qs) store
      = Some (map g (enumerate (Suc k) es), store)"
    by (rule Cons.IH) (simp add: Cons.prems)
  ultimately show ?case
    by (simp add: bind_st_def return_st_def)
qed

lemma foldl_refers_enum:
  assumes "refers store refs nodes"
    and "\<And>acc i q e. e \<in> set nodes \<Longrightarrow> nodeAt store q = Some e \<Longrightarrow>
           f acc (i, q) store = Some (g acc (i, e), store)"
  shows "foldl_st f acc (enumerate k refs) store = Some (foldl g acc (enumerate k nodes), store)"
  using assms unfolding refers_def
proof (induction refs nodes arbitrary: k acc rule: list_all2_induct)
  case Nil
  show ?case by (simp add: return_st_def)
next
  case (Cons q qs e es)
  have "f acc (k, q) store = Some (g acc (k, e), store)"
    using Cons.hyps(1) by (intro Cons.prems) simp
  moreover have "foldl_st f (g acc (k, e)) (enumerate (Suc k) qs) store
      = Some (foldl g (g acc (k, e)) (enumerate (Suc k) es), store)"
    by (rule Cons.IH) (simp add: Cons.prems)
  ultimately show ?case
    by (simp add: bind_st_def)
qed

lemma filter_refers:
  assumes "refers store refs nodes"
    and "\<And>q e. e \<in> set nodes \<Longrightarrow> nodeAt store q = Some e \<Longrightarrow> p q store = Some (P e, store)"
  shows "\<exists>kept. filter_st p refs store = Some (kept, store) \<and> refers store kept (filter P nodes)"
  using assms unfolding refers_def
proof (induction refs nodes rule: list_all2_induct)
  case Nil
  show ?case by (simp add: return_st_def)
next
  case (Cons q qs e es)
  have here: "p q store = Some (P e, store)"
    using Cons.hyps(1) by (intro Cons.prems) simp
  have "\<exists>kept. filter_st p qs store = Some (kept, store)
      \<and> list_all2 (\<lambda>q e. nodeAt store q = Some e) kept (filter P es)"
    by (rule Cons.IH) (simp add: Cons.prems)
  then obtain kept where kept: "filter_st p qs store = Some (kept, store)"
    "list_all2 (\<lambda>q e. nodeAt store q = Some e) kept (filter P es)"
    by blast
  show ?case
    using here kept Cons.hyps(1) by (simp add: bind_st_def return_st_def)
qed

lemma querySelectorAll_st_refers:
  assumes "nodeAt store ref = Some n"
  shows "\<exists>found. querySelectorAll_st sel ref store = Some (found, store)
            \<and> refers store found (querySelectorAll sel n)"
  using refers_querySelectorAll [OF assms, of sel]
  by (simp add: querySelectorAll_st_def read_st_Some [OF assms])

lemma querySelector_st_refers:
  assumes "nodeAt store ref = Some n"
  shows "\<exists>found. querySelector_st sel ref store = Some (found, store)
            \<and> (case found of
                  None \<Rightarrow> querySelector sel n = None
                | Some c \<Rightarrow> (\<exists>e. querySelector sel n = Some e \<and> nodeAt store c = Some e))"
proof -
  from querySelectorAll_st_refers [OF assms] obtain found where
    f: "querySelectorAll_st sel ref store = Some (found, store)"
      "refers store found (querySelectorAll sel n)"
    by blast
  from f(2) show ?thesis
    by (cases found; cases "querySelectorAll sel n")
      (auto simp: querySelector_st_def querySelector_def bind_st_def return_st_def f(1)
        refers_def)
qed


lemma bind_st_eq:
  "m store = Some (x, store1) \<Longrightarrow> k x store1 = r \<Longrightarrow> bind_st m k store = r"
  by (simp add: bind_st_def)

lemma emitter_st_step:
  assumes IH: "\<And>m fuel element.
      size m < size n \<Longrightarrow> nodeAt store element = Some m \<Longrightarrow>
        (3 * size m + 1 \<le> fuel \<longrightarrow>
           processElement_st fuel element store = Some (processElement m, store))
      \<and> (3 * size m + 2 \<le> fuel \<longrightarrow>
           convertElementToMarkdown_st fuel element store
             = Some (convertElementToMarkdown m, store))"
    and at: "nodeAt store element = Some n"
  shows "(3 * size n + 1 \<le> fuel \<longrightarrow>
           processElement_st fuel element store = Some (processElement n, store))
      \<and> (3 * size n + 2 \<le> fuel \<longrightarrow>
           convertElementToMarkdown_st fuel element store
             = Some (convertElementToMarkdown n, store))
      \<and> (3 * size n + 1 \<le> fuel \<longrightarrow>
           processListItems_st fuel element p b store = Some (processListItems n p b, store))
      \<and> (3 * size n + 1 \<le> fuel \<longrightarrow>
           processTable_st fuel element store = Some (processTable n, store))"
proof -
  have sub: "processElement_st f q store = Some (processElement m, store)"
    if "size m < size n" "nodeAt store q = Some m" "3 * size n \<le> f" for f q m
  proof -
    have "3 * size m + 1 \<le> f" using that(1,3) by simp
    with IH [OF that(1,2)] show ?thesis by blast
  qed
  have subc: "convertElementToMarkdown_st f q store = Some (convertElementToMarkdown m, store)"
    if "size m < size n" "nodeAt store q = Some m" "3 * size n \<le> f" for f q m
  proof -
    have "3 * size m + 2 \<le> f" using that(1,3) by simp
    with IH [OF that(1,2)] show ?thesis by blast
  qed
  have pe: "processElement_st (Suc f) element store = Some (processElement n, store)"
    if f: "3 * size n \<le> f" for f
  proof -
    let ?g = "\<lambda>node. case node of
          Text s \<Rightarrow> (let text = trim s in if text \<noteq> [] then text @ lit '' '' else [])
        | Element t a cs \<Rightarrow> convertElementToMarkdown node
        | Comment s \<Rightarrow> []"
    let ?f = "\<lambda>node.
         bind_st (nodeType_st node) (\<lambda>nodeType.
           if nodeType = TEXT_NODE then
             bind_st (textContent_st node) (\<lambda>textContent.
               (let text = trim textContent in
                return_st (if text \<noteq> [] then text @ lit '' '' else [])))
           else if nodeType = ELEMENT_NODE then convertElementToMarkdown_st f node
           else return_st [])"
    have each: "?f q store = Some (?g c, store)"
      if "c \<in> set (childNodes n)" "nodeAt store q = Some c" for q c
    proof (cases c)
      case (Text s)
      with that(2) show ?thesis
        by (simp add: bind_st_def return_st_def nodeType_st_def textContent_st_def
            read_st_def Let_def)
    next
      case (Comment s)
      with that(2) show ?thesis
        by (simp add: bind_st_def return_st_def nodeType_st_def read_st_def)
    next
      case (Element t a cs)
      have "convertElementToMarkdown_st f q store = Some (convertElementToMarkdown c, store)"
        using size_childNodes [OF that(1)] that(2) f by (rule subc)
      with that(2) Element show ?thesis
        by (simp add: bind_st_def nodeType_st_def read_st_def)
    qed
    have "traverse_st ?f (map (\<lambda>i. element @ [i]) [0 ..< length (childNodes n)]) store
        = Some (map ?g (childNodes n), store)"
      using refers_childNodes [OF at] each by (rule traverse_refers)
    then show ?thesis
      by (simp add: processElement.simps [of n] bind_st_def return_st_def childNodes_st_def
          read_st_Some [OF at])
  qed
  have pl: "processListItems_st (Suc f) element p b store = Some (processListItems n p b, store)"
    if f: "3 * size n \<le> f" for f p b
  proof -
    let ?isLi = "\<lambda>child. bind_st (tagName_st child) (\<lambda>tag. return_st (tag = lit ''li''))"
    let ?refs = "map (\<lambda>i. element @ [i])
           (filter (\<lambda>i. isElement (childNodes n ! i)) [0 ..< length (childNodes n)])"
    have "\<exists>kept. filter_st ?isLi ?refs store = Some (kept, store)
        \<and> refers store kept (filter (\<lambda>child. tagName child = lit ''li'') (children n))"
      using refers_children [OF at]
      by (rule filter_refers)
        (simp add: bind_st_def return_st_def tagName_st_def read_st_def)
    then obtain items where items: "filter_st ?isLi ?refs store = Some (items, store)"
      "refers store items (filter (\<lambda>child. tagName child = lit ''li'') (children n))"
      by blast
    let ?pre = "\<lambda>index. (if b then toString (index + 1) @ lit ''. ''
                    else (case p of Some p \<Rightarrow> p | None \<Rightarrow> lit ''null''))"
    let ?f = "\<lambda>(index, item).
         (let itemPrefix = ?pre index
          in bind_st (processElement_st f item) (\<lambda>inner.
             return_st (itemPrefix @ trim inner)))"
    let ?g = "\<lambda>(index, item). (let itemPrefix = ?pre index
          in itemPrefix @ trim (processElement item))"
    have each: "?f (i, q) store = Some (?g (i, e), store)"
      if "e \<in> set (filter (\<lambda>child. tagName child = lit ''li'') (children n))"
        "nodeAt store q = Some e" for i q e
    proof -
      have "size e < size n" using that(1) by (auto dest: size_children)
      from sub [OF this that(2) f] show ?thesis
        by (simp add: bind_st_def return_st_def Let_def)
    qed
    have "traverse_st ?f (enumerate 0 items) store
        = Some (map ?g (enumerate 0 (filter (\<lambda>child. tagName child = lit ''li'') (children n))),
                store)"
      using items(2) each by (rule traverse_refers_enum)
    then have lines: "traverse_st ?f (enumerate 0 items) store
        = Some (map ?g (enumerate 0 (filter (\<lambda>child. tagName child = lit ''li'') (children n))),
                store)" .
    have kids: "children_st element store = Some (?refs, store)"
      by (simp add: children_st_def read_st_Some [OF at])
    show ?thesis
      unfolding processListItems_st.simps
      by (rule bind_st_eq [where m = "children_st element", OF kids],
          rule bind_st_eq [where m = "filter_st ?isLi ?refs", OF items(1)],
          rule bind_st_eq [where m = "traverse_st ?f (enumerate 0 items)", OF lines])
        (simp add: return_st_def processListItems.simps [of n] Let_def)
  qed
  have pt: "processTable_st (Suc f) element store = Some (processTable n, store)"
    if f: "3 * size n \<le> f" for f
  proof -
    from querySelectorAll_st_refers [OF at] obtain rows where rows:
      "querySelectorAll_st [lit ''tr''] element store = Some (rows, store)"
      "refers store rows (querySelectorAll [lit ''tr''] n)"
      by blast
    have len: "length rows = length (querySelectorAll [lit ''tr''] n)"
      using rows(2) by (simp add: refers_def list_all2_lengthD)
    let ?f = "\<lambda>result (rowIndex, row).
           bind_st (querySelectorAll_st [lit ''td'', lit ''th''] row) (\<lambda>cells.
           bind_st (traverse_st (\<lambda>cell.
               bind_st (processElement_st f cell) (\<lambda>inner.
               return_st (replaceNewlines (trim inner)))) cells) (\<lambda>cellContents.
           (let result1 = result @ lit ''| '' @ join (lit '' | '') cellContents @ lit '' |\<newline>''
            in bind_st (querySelector_st [lit ''th''] row) (\<lambda>header.
               return_st
                 (if rowIndex = 0 \<and> header \<noteq> None
                  then result1 @ lit ''| '' @ join (lit '' | '') (map (\<lambda>cell. lit ''---'') cells)
                         @ lit '' |\<newline>''
                  else result1)))))"
    let ?g = "\<lambda>result (rowIndex, row).
            (let cells = querySelectorAll [lit ''td'', lit ''th''] row;
                 cellContents = map (\<lambda>cell. replaceNewlines (trim (processElement cell))) cells;
                 result1 = result @ lit ''| '' @ join (lit '' | '') cellContents @ lit '' |\<newline>''
             in if rowIndex = 0 \<and> querySelector [lit ''th''] row \<noteq> None
                then result1 @ lit ''| '' @ join (lit '' | '') (map (\<lambda>cell. lit ''---'') cells)
                       @ lit '' |\<newline>''
                else result1)"
    have each: "?f acc (i, q) store = Some (?g acc (i, row), store)"
      if row: "row \<in> set (querySelectorAll [lit ''tr''] n)" "nodeAt store q = Some row"
      for acc i q row
    proof -
      from querySelectorAll_st_refers [OF row(2)] obtain cells where cells:
        "querySelectorAll_st [lit ''td'', lit ''th''] q store = Some (cells, store)"
        "refers store cells (querySelectorAll [lit ''td'', lit ''th''] row)"
        by blast
      have clen: "length cells = length (querySelectorAll [lit ''td'', lit ''th''] row)"
        using cells(2) by (simp add: refers_def list_all2_lengthD)
      have cell: "bind_st (processElement_st f r) (\<lambda>inner.
               return_st (replaceNewlines (trim inner))) store
          = Some (replaceNewlines (trim (processElement c)), store)"
        if "c \<in> set (querySelectorAll [lit ''td'', lit ''th''] row)" "nodeAt store r = Some c"
        for r c
      proof -
        have "size c < size row" "size row < size n"
          using that(1) row(1) by (auto dest: size_querySelectorAll)
        then have "size c < size n" by simp
        from sub [OF this that(2) f] show ?thesis
          by (simp add: bind_st_def return_st_def)
      qed
      have contents: "traverse_st (\<lambda>cell.
               bind_st (processElement_st f cell) (\<lambda>inner.
               return_st (replaceNewlines (trim inner)))) cells store
          = Some (map (\<lambda>cell. replaceNewlines (trim (processElement cell)))
                    (querySelectorAll [lit ''td'', lit ''th''] row), store)"
        using cells(2) cell by (rule traverse_refers)
      from querySelector_st_refers [OF row(2)] obtain header where header:
        "querySelector_st [lit ''th''] q store = Some (header, store)"
        "header \<noteq> None \<longleftrightarrow> querySelector [lit ''th''] row \<noteq> None"
        by (fastforce split: option.splits)
      have seps: "map (\<lambda>cell. lit ''---'') cells
          = map (\<lambda>cell. lit ''---'') (querySelectorAll [lit ''td'', lit ''th''] row)"
        by (simp add: map_replicate_const clen)
      show ?thesis
        using header(2)
        apply (simp only: prod.case Let_def)
        apply (rule bind_st_eq [where m = "querySelectorAll_st [lit ''td'', lit ''th''] q",
              OF cells(1)])
        apply (rule bind_st_eq [where m = "traverse_st (\<lambda>cell.
               bind_st (processElement_st f cell) (\<lambda>inner.
               return_st (replaceNewlines (trim inner)))) cells", OF contents])
        apply (rule bind_st_eq [where m = "querySelector_st [lit ''th''] q", OF header(1)])
        apply (auto simp: return_st_def seps)
        done
    qed
    have fold: "foldl_st ?f (lit ''\<newline>'') (enumerate 0 rows) store
        = Some (foldl ?g (lit ''\<newline>'') (enumerate 0 (querySelectorAll [lit ''tr''] n)), store)"
      using rows(2) each by (rule foldl_refers_enum)
    have pure: "processTable n =
        (if length (querySelectorAll [lit ''tr''] n) = 0 then []
         else foldl ?g (lit ''\<newline>'') (enumerate 0 (querySelectorAll [lit ''tr''] n))
                @ lit ''\<newline>'')"
      by (simp only: processTable.simps [of n] Let_def)
    show ?thesis
    proof (cases "length (querySelectorAll [lit ''tr''] n) = 0")
      case True
      show ?thesis
        unfolding pure processTable_st.simps
        by (rule bind_st_eq [where m = "querySelectorAll_st [lit ''tr''] element", OF rows(1)])
          (simp add: return_st_def len True)
    next
      case False
      show ?thesis
        unfolding pure processTable_st.simps
        apply (rule bind_st_eq [where m = "querySelectorAll_st [lit ''tr''] element", OF rows(1)])
        apply (simp only: len False if_False)
        apply (rule bind_st_eq [where m = "foldl_st ?f (lit ''\<newline>'') (enumerate 0 rows)",
              OF fold])
        apply (simp add: return_st_def)
        done
    qed
  qed
  have ce: "convertElementToMarkdown_st (Suc f) element store
      = Some (convertElementToMarkdown n, store)"
    if f: "3 * size n + 1 \<le> f" for f
  proof -
    obtain f' where f': "f = Suc f'" "3 * size n \<le> f'"
      using f by (cases f) auto
    note inner = pe [OF f'(2), folded f'(1)] pl [OF f'(2), folded f'(1)] pt [OF f'(2), folded f'(1)]
    from querySelector_st_refers [OF at] obtain code where code:
      "querySelector_st [lit ''code''] element store = Some (code, store)"
      "case code of
         None \<Rightarrow> querySelector [lit ''code''] n = None
       | Some c \<Rightarrow> (\<exists>e. querySelector [lit ''code''] n = Some e \<and> nodeAt store c = Some e)"
      by blast
    have pre: "bind_st (querySelector_st [lit ''code''] element) (\<lambda>codeElement.
        bind_st (case codeElement of
                    Some c \<Rightarrow> textContent_st c
                  | None \<Rightarrow> return_st t0) k) store
        = k (case querySelector [lit ''code''] n of Some c \<Rightarrow> textContent c | None \<Rightarrow> t0) store"
      for t0 and k :: "jsstring \<Rightarrow> jsstring dom"
      using code
      by (cases code)
        (auto simp: bind_st_def return_st_def textContent_st_def read_st_def)
    have tagb: "bind_st (tagName_st element) k store = k (tagName n) store"
      for k :: "jsstring \<Rightarrow> jsstring dom"
      by (simp add: bind_st_def tagName_st_def read_st_Some [OF at])
    have textb: "bind_st (textContent_st element) k store = k (textContent n) store"
      for k :: "jsstring \<Rightarrow> jsstring dom"
      by (simp add: bind_st_def textContent_st_def read_st_Some [OF at])
    have attrb: "bind_st (getAttribute_st element name) k store = k (getAttribute n name) store"
      for name and k :: "jsstring option \<Rightarrow> jsstring dom"
      by (simp add: bind_st_def getAttribute_st_def read_st_Some [OF at])
    have peb: "bind_st (processElement_st f element) k store = k (processElement n) store"
      for k :: "jsstring \<Rightarrow> jsstring dom"
      by (simp add: bind_st_def inner(1))
    have plb: "bind_st (processListItems_st f element p b) k store
        = k (processListItems n p b) store"
      for p b and k :: "jsstring \<Rightarrow> jsstring dom"
      by (simp add: bind_st_def inner(2))
    have ret: "return_st x store = Some (x, store)" for x :: jsstring
      by (simp add: return_st_def)
    have if_app: "(if c then m1 else m2) store = (if c then m1 store else m2 store)"
      for c and m1 m2 :: "jsstring dom"
      by simp
    have if_some: "(if c then Some (x, store) else Some (y, store)) = Some (if c then x else y, store)"
      for c and x y :: jsstring
      by simp
    show ?thesis
      unfolding convertElementToMarkdown_st.simps convertElementToMarkdown.simps [of n]
      apply (simp only: tagb textb Let_def)
      apply (simp only: if_app attrb peb plb pre ret inner(1) inner(3) if_some cong: if_cong)
      done
  qed
  show ?thesis
  proof (intro conjI impI)
    assume "3 * size n + 1 \<le> fuel"
    then obtain f where "fuel = Suc f" "3 * size n \<le> f" by (cases fuel) auto
    then show "processElement_st fuel element store = Some (processElement n, store)"
      using pe by simp
  next
    assume "3 * size n + 2 \<le> fuel"
    then obtain f where "fuel = Suc f" "3 * size n + 1 \<le> f" by (cases fuel) auto
    then show "convertElementToMarkdown_st fuel element store
        = Some (convertElementToMarkdown n, store)"
      using ce by simp
  next
    assume "3 * size n + 1 \<le> fuel"
    then obtain f where "fuel = Suc f" "3 * size n \<le> f" by (cases fuel) auto
    then show "processListItems_st fuel element p b store = Some (processListItems n p b, store)"
      using pl by simp
  next
    assume "3 * size n + 1 \<le> fuel"
    then obtain f where "fuel = Suc f" "3 * size n \<le> f" by (cases fuel) auto
    then show "processTable_st fuel element store = Some (processTable n, store)"
      using pt by simp
  qed
qed

lemma emitter_st_refines:
  "nodeAt store element = Some n \<Longrightarrow>
     (3 * size n + 1 \<le> fuel \<longrightarrow>
        processElement_st fuel element store = Some (processElement n, store))
   \<and> (3 * size n + 2 \<le> fuel \<longrightarrow>
        convertElementToMarkdown_st fuel element store
          = Some (convertElementToMarkdown n, store))
   \<and> (3 * size n + 1 \<le> fuel \<longrightarrow>
        processListItems_st fuel element p b store = Some (processListItems n p b, store))
   \<and> (3 * size n + 1 \<le> fuel \<longrightarrow>
        processTable_st fuel element store = Some (processTable n, store))"
proof (induction n arbitrary: fuel element p b rule: measure_induct_rule [of size])
  case (less n)
  show ?case
  proof (rule emitter_st_step [OF _ less.prems])
    fix m fuel element
    assume "size m < size n" "nodeAt store element = Some m"
    from less.IH [OF this, of fuel]
    show "(3 * size m + 1 \<le> fuel \<longrightarrow>
           processElement_st fuel element store = Some (processElement m, store))
      \<and> (3 * size m + 2 \<le> fuel \<longrightarrow>
           convertElementToMarkdown_st fuel element store
             = Some (convertElementToMarkdown m, store))"
      by blast
  qed
qed

text \<open>
  Claim C7. Applied to any node of any tree, the emitter leaves the tree as it was: run
  on the store with fuel for the depth of the node, each of \<open>processElement\<close>,
  \<open>convertElementToMarkdown\<close>, \<open>processListItems\<close> and \<open>processTable\<close> returns, with the
  Markdown string of the node, the very store it was given.
\<close>

theorem C7_emitter_leaves_tree_unchanged:
  assumes "nodeAt store element = Some n"
    and "3 * size n + 2 \<le> fuel"
  shows "processElement_st fuel element store = Some (processElement n, store)
     \<and> convertElementToMarkdown_st fuel element store
         = Some (convertElementToMarkdown n, store)
     \<and> processListItems_st fuel element p b store = Some (processListItems n p b, store)
     \<and> processTable_st fuel element store = Some (processTable n, store)"
  using emitter_st_refines [OF assms(1), of fuel p b] assms(2) by simp

text \<open>
  The claim at a \<open>body\<close> that holds a paragraph, a list and an image: the emitter
  returns the Markdown and the same tree, whereas \<open>remove\<close> of the first child leaves
  another tree.
\<close>

theorem C7_emitter_leaves_tree_unchanged_witness:
  "processElement_st 40 []
     (Element (lit ''body'') []
        [Element (lit ''p'') [] [Text (lit ''Hi '')],
         Element (lit ''ul'') [] [Element (lit ''li'') [] [Text (lit ''a'')]],
         Element (lit ''img'') [(lit ''src'', lit ''s'')] []])
   = Some (lit ''\<newline>Hi \<newline>\<newline>\<newline>- a\<newline>![](s)'',
       Element (lit ''body'') []
        [Element (lit ''p'') [] [Text (lit ''Hi '')],
         Element (lit ''ul'') [] [Element (lit ''li'') [] [Text (lit ''a'')]],
         Element (lit ''img'') [(lit ''src'', lit ''s'')] []])
   \<and> remove_st [0]
     (Element (lit ''body'') []
        [Element (lit ''p'') [] [Text (lit ''Hi '')],
         Element (lit ''ul'') [] [Element (lit ''li'') [] [Text (lit ''a'')]],
         Element (lit ''img'') [(lit ''src'', lit ''s'')] []])
   = Some ((),
       Element (lit ''body'') []
        [Element (lit ''ul'') [] [Element (lit ''li'') [] [Text (lit ''a'')]],
         Element (lit ''img'') [(lit ''src'', lit ''s'')] []])"
proof -
  let ?body = "Element (lit ''body'') []
        [Element (lit ''p'') [] [Text (lit ''Hi '')],
         Element (lit ''ul'') [] [Element (lit ''li'') [] [Text (lit ''a'')]],
         Element (lit ''img'') [(lit ''src'', lit ''s'')] []]"
  have h1: "nodeAt ?body [] = Some ?body"
    by simp
  have h2: "3 * size ?body + 2 \<le> 40"
    by simp
  have md: "processElement ?body = lit ''\<newline>Hi \<newline>\<newline>\<newline>- a\<newline>![](s)''"
    by code_simp
  have rm: "remove_st [0] ?body
      = Some ((), Element (lit ''body'') []
        [Element (lit ''ul'') [] [Element (lit ''li'') [] [Text (lit ''a'')]],
         Element (lit ''img'') [(lit ''src'', lit ''s'')] []])"
    by (simp add: remove_st_def)
  from C7_emitter_leaves_tree_unchanged [OF h1 h2] md rm show ?thesis
    by simp
qed

end
